theory Spec2Isabelle
  imports Main "HOL-Library.Word"
begin

section \<open>Data model of the address space (lib/Core/AddressSpace.cpp)\<close>

type_synonym u64 = "64 word"
type_synonym u32 = "32 word"

text \<open>
  An expression is either a constant or symbolic.  A symbolic expression is identified by
  a number; what it evaluates to is decided by the solver.  \<open>dyn_cast<ConstantExpr>\<close>
  succeeds on the first constructor only, and \<open>getZExtValue\<close> reads its 64-bit value.
\<close>

datatype Expr = ConstantExpr u64 | SymbolicExpr nat

fun isConstantExpr :: "Expr \<Rightarrow> bool" where
  "isConstantExpr (ConstantExpr v) = True"
| "isConstantExpr (SymbolicExpr n) = False"

text \<open>
  Modelled from the spec: the classes \<open>MemoryObject\<close> and \<open>ObjectState\<close> (Memory.h) and
  \<open>KValue\<close> (KValue.h) are not among the sources.  The records have the fields of section 3
  of the specification that AddressSpace.cpp reads.  The identity of a memory object is
  the pointer \<open>mo_id\<close>; the ordering of the object map looks at \<open>address\<close> only
  (\<open>MemoryObjectLT\<close>, at the end of AddressSpace.cpp).  \<open>getValue()\<close> and \<open>getOffset()\<close> of a
  \<open>KValue\<close> read the same part, and \<open>isConstant()\<close> holds iff both parts are constant.
\<close>

record MemoryObject =
  mo_id :: nat
  address :: u64
  size_expr :: Expr
  segment :: u64

definition MemoryObjectLT :: "MemoryObject \<Rightarrow> MemoryObject \<Rightarrow> bool" where
  "MemoryObjectLT a b = (address a < address b)"

text \<open>The throwaway object \<open>MemoryObject hack(address)\<close> used to probe the map.\<close>

definition hack :: "u64 \<Rightarrow> MemoryObject" where
  "hack a = \<lparr>mo_id = 0, address = a, size_expr = ConstantExpr 0, segment = 0\<rparr>"

record ObjectState =
  readOnly :: bool
  copyOnWriteOwner :: u64
  concreteStore :: "8 word list"

text \<open>
  \<open>ObjectState *\<close> is an index into the heap of object states; a pointer outside the
  heap is dangling.  \<open>new ObjectState(*os)\<close> appends a cell with a copy of \<open>*os\<close>.
\<close>

type_synonym os_ptr = nat
type_synonym Heap = "ObjectState list"
type_synonym ObjectPair = "MemoryObject \<times> os_ptr"

record KValue =
  getSegment :: Expr
  getOffset :: Expr

definition isConstant :: "KValue \<Rightarrow> bool" where
  "isConstant p = (isConstantExpr (getSegment p) \<and> isConstantExpr (getOffset p))"

datatype fault = AssertionFailed | NullDereference

subsection \<open>The persistent ordered maps\<close>

text \<open>
  Modelled from the spec: the persistent map (\<open>ImmutableMap\<close>, section 4.1 of the
  specification) is not among the sources.  A version of the map is the list of its
  entries in key order; \<open>key\<close> projects an entry's key to the value it is ordered by
  (the address of a memory object, so that the order of the object map is
  \<open>MemoryObjectLT\<close>; the segment number itself).  Two keys with the same projection are the
  same key of the map.
\<close>

fun pm_replace :: "('k \<Rightarrow> u64) \<Rightarrow> 'k \<times> 'v \<Rightarrow> ('k \<times> 'v) list \<Rightarrow> ('k \<times> 'v) list" where
  "pm_replace key kv [] = [kv]"
| "pm_replace key kv (e # es) =
     (if key (fst kv) < key (fst e) then kv # e # es
      else if key (fst e) < key (fst kv) then e # pm_replace key kv es
      else kv # es)"

fun pm_remove :: "('k \<Rightarrow> u64) \<Rightarrow> 'k \<Rightarrow> ('k \<times> 'v) list \<Rightarrow> ('k \<times> 'v) list" where
  "pm_remove key k [] = []"
| "pm_remove key k (e # es) =
     (if key (fst e) = key k then es else e # pm_remove key k es)"

fun pm_lookup :: "('k \<Rightarrow> u64) \<Rightarrow> 'k \<Rightarrow> ('k \<times> 'v) list \<Rightarrow> ('k \<times> 'v) option" where
  "pm_lookup key k [] = None"
| "pm_lookup key k (e # es) =
     (if key (fst e) = key k then Some e else pm_lookup key k es)"

text \<open>\<open>lookup_previous\<close>: the greatest entry whose key is not above \<open>k\<close>.\<close>

fun pm_lookup_previous :: "('k \<Rightarrow> u64) \<Rightarrow> 'k \<Rightarrow> ('k \<times> 'v) list \<Rightarrow> ('k \<times> 'v) option" where
  "pm_lookup_previous key k [] = None"
| "pm_lookup_previous key k (e # es) =
     (if key k < key (fst e) then None
      else (case pm_lookup_previous key k es of None \<Rightarrow> Some e | Some e' \<Rightarrow> Some e'))"

text \<open>
  \<open>upper_bound\<close> positions an iterator at the least entry above \<open>k\<close>.  The position is
  the pair of what \<open>--it\<close> visits from there (the entries not above \<open>k\<close>, nearest first)
  and what \<open>++it\<close> visits up to \<open>end()\<close>.
\<close>

definition pm_upper_bound ::
  "('k \<Rightarrow> u64) \<Rightarrow> 'k \<Rightarrow> ('k \<times> 'v) list \<Rightarrow> ('k \<times> 'v) list \<times> ('k \<times> 'v) list" where
  "pm_upper_bound key k m =
     (rev (takeWhile (\<lambda>e. \<not> key k < key (fst e)) m),
      dropWhile (\<lambda>e. \<not> key k < key (fst e)) m)"

type_synonym MemoryMap = "(MemoryObject \<times> os_ptr) list"
type_synonym SegmentMap = "(u64 \<times> MemoryObject) list"

record AddressSpace =
  cowKey :: u64
  objects :: MemoryMap
  segmentMap :: SegmentMap

subsection \<open>bindObject, unbindObject, findObject, getWriteable\<close>

definition bindObject ::
  "Heap \<Rightarrow> AddressSpace \<Rightarrow> MemoryObject \<Rightarrow> os_ptr \<Rightarrow> fault + (Heap \<times> AddressSpace)" where
  "bindObject h as mo os =
     (if length h \<le> os then Inl NullDereference
      else if copyOnWriteOwner (h ! os) \<noteq> 0 then Inl AssertionFailed
      else
        let h' = h[os := (h ! os)\<lparr>copyOnWriteOwner := cowKey as\<rparr>];
            as1 = as\<lparr>objects := pm_replace address (mo, os) (objects as)\<rparr>
        in Inr (h',
             if segment mo \<noteq> 0
             then as1\<lparr>segmentMap := pm_replace id (segment mo, mo) (segmentMap as1)\<rparr>
             else as1))"

definition unbindObject :: "AddressSpace \<Rightarrow> MemoryObject \<Rightarrow> AddressSpace" where
  "unbindObject as mo =
     (let as1 = (if segment mo \<noteq> 0
                 then as\<lparr>segmentMap := pm_remove id (segment mo) (segmentMap as)\<rparr>
                 else as)
      in as1\<lparr>objects := pm_remove address mo (objects as1)\<rparr>)"

definition findObject :: "AddressSpace \<Rightarrow> MemoryObject \<Rightarrow> os_ptr option" where
  "findObject as mo = map_option snd (pm_lookup address mo (objects as))"

definition getWriteable ::
  "Heap \<Rightarrow> AddressSpace \<Rightarrow> MemoryObject \<Rightarrow> os_ptr \<Rightarrow> fault + (Heap \<times> AddressSpace \<times> os_ptr)" where
  "getWriteable h as mo os =
     (if length h \<le> os then Inl NullDereference
      else if readOnly (h ! os) then Inl AssertionFailed
      else if cowKey as = copyOnWriteOwner (h ! os) then Inr (h, as, os)
      else
        let newObjectState = length h;
            h' = h @ [(h ! os)\<lparr>copyOnWriteOwner := cowKey as\<rparr>]
        in Inr (h', as\<lparr>objects := pm_replace address (mo, newObjectState) (objects as)\<rparr>,
                newObjectState))"

subsection \<open>Sequences of the public operations\<close>

datatype operation =
    BindObject MemoryObject os_ptr
  | UnbindObject MemoryObject
  | GetWriteable MemoryObject os_ptr

fun apply_operation :: "Heap \<times> AddressSpace \<Rightarrow> operation \<Rightarrow> fault + (Heap \<times> AddressSpace)" where
  "apply_operation (h, as) (BindObject mo os) = bindObject h as mo os"
| "apply_operation (h, as) (UnbindObject mo) = Inr (h, unbindObject as mo)"
| "apply_operation (h, as) (GetWriteable mo os) =
     (case getWriteable h as mo os of
        Inl e \<Rightarrow> Inl e
      | Inr (h', as', os') \<Rightarrow> Inr (h', as'))"

fun run_operations :: "Heap \<times> AddressSpace \<Rightarrow> operation list \<Rightarrow> fault + (Heap \<times> AddressSpace)" where
  "run_operations s [] = Inr s"
| "run_operations s (x # xs) =
     (case apply_operation s x of Inl e \<Rightarrow> Inl e | Inr s' \<Rightarrow> run_operations s' xs)"

text \<open>The object states reachable from an address space are those its object map points to.\<close>

definition owners_ok :: "Heap \<Rightarrow> AddressSpace \<Rightarrow> bool" where
  "owners_ok h as =
     list_all (\<lambda>e. snd e < length h \<and>
                    (copyOnWriteOwner (h ! snd e) = 0 \<or> copyOnWriteOwner (h ! snd e) = cowKey as))
       (objects as)"

text \<open>What the assertions of bindObject and getWriteable ask of their arguments.\<close>

fun asserted :: "Heap \<Rightarrow> operation \<Rightarrow> bool" where
  "asserted h (BindObject mo os) = (os < length h \<and> copyOnWriteOwner (h ! os) = 0)"
| "asserted h (UnbindObject mo) = True"
| "asserted h (GetWriteable mo os) = (os < length h \<and> \<not> readOnly (h ! os))"

text \<open>Scenario objects of the specification: A@0x1000 (16 bytes), B@0x2000 (8 bytes), Z@0x3000 (empty).\<close>

definition obj_A :: MemoryObject where
  "obj_A = \<lparr>mo_id = 1, address = 0x1000, size_expr = ConstantExpr 16, segment = 0\<rparr>"

definition obj_B :: MemoryObject where
  "obj_B = \<lparr>mo_id = 2, address = 0x2000, size_expr = ConstantExpr 8, segment = 0\<rparr>"

definition obj_Z :: MemoryObject where
  "obj_Z = \<lparr>mo_id = 3, address = 0x3000, size_expr = ConstantExpr 0, segment = 0\<rparr>"

definition fresh_state :: ObjectState where
  "fresh_state = \<lparr>readOnly = False, copyOnWriteOwner = 0, concreteStore = [0, 0]\<rparr>"

definition empty_space :: "u64 \<Rightarrow> AddressSpace" where
  "empty_space k = \<lparr>cowKey = k, objects = [], segmentMap = []\<rparr>"

subsection \<open>The segment map and the object map\<close>

text \<open>
  \<open>segmentMap_at as s\<close> is \<open>segmentMap[s]\<close>; \<open>is_bound as mo\<close> says that \<open>mo\<close> itself is a
  key of \<open>objects\<close>.  \<open>wf_maps\<close> is the representation invariant of the two maps (entries
  in strictly increasing key order).  \<open>segment_sync_stated\<close> is the synchronisation
  invariant in the words of the specification, \<open>segment_sync\<close> the one the operations
  keep: segment 0 has no entry.
\<close>

definition pm_sorted :: "('k \<Rightarrow> u64) \<Rightarrow> ('k \<times> 'v) list \<Rightarrow> bool" where
  "pm_sorted key m = sorted_wrt (\<lambda>a b. key (fst a) < key (fst b)) m"

definition segmentMap_at :: "AddressSpace \<Rightarrow> u64 \<Rightarrow> MemoryObject option" where
  "segmentMap_at as s = map_option snd (pm_lookup id s (segmentMap as))"

definition is_bound :: "AddressSpace \<Rightarrow> MemoryObject \<Rightarrow> bool" where
  "is_bound as mo = (case pm_lookup address mo (objects as) of None \<Rightarrow> False | Some e \<Rightarrow> fst e = mo)"

definition wf_maps :: "AddressSpace \<Rightarrow> bool" where
  "wf_maps as = (pm_sorted address (objects as) \<and> pm_sorted id (segmentMap as))"

definition segment_sync :: "AddressSpace \<Rightarrow> bool" where
  "segment_sync as =
     (\<forall>s mo. segmentMap_at as s = Some mo \<longleftrightarrow> is_bound as mo \<and> segment mo = s \<and> s \<noteq> 0)"

definition segment_sync_stated :: "AddressSpace \<Rightarrow> bool" where
  "segment_sync_stated as =
     ((\<forall>s mo. segmentMap_at as s = Some mo \<longleftrightarrow> is_bound as mo \<and> segment mo = s)
      \<and> (\<forall>mo. is_bound as mo \<and> segment mo \<noteq> 0 \<longrightarrow> (\<exists>s. segmentMap_at as s = Some mo)))"

fun stated_pre :: "AddressSpace \<Rightarrow> operation \<Rightarrow> bool" where
  "stated_pre as (BindObject mo os) =
     list_all (\<lambda>e. fst e = mo \<or> segment mo = 0 \<or> segment (fst e) \<noteq> segment mo) (objects as)"
| "stated_pre as (UnbindObject mo) = True"
| "stated_pre as (GetWriteable mo os) = True"

fun sync_pre :: "AddressSpace \<Rightarrow> operation \<Rightarrow> bool" where
  "sync_pre as (BindObject mo os) =
     list_all (\<lambda>e. fst e = mo \<or>
                 (address (fst e) \<noteq> address mo \<and> (segment mo = 0 \<or> segment (fst e) \<noteq> segment mo)))
       (objects as)"
| "sync_pre as (UnbindObject mo) = is_bound as mo"
| "sync_pre as (GetWriteable mo os) = is_bound as mo"

fun pre_holds :: "(AddressSpace \<Rightarrow> operation \<Rightarrow> bool) \<Rightarrow> Heap \<times> AddressSpace \<Rightarrow> operation list \<Rightarrow> bool" where
  "pre_holds pre s [] = True"
| "pre_holds pre s (x # xs) =
     (pre (snd s) x \<and>
      (case apply_operation s x of Inl e \<Rightarrow> True | Inr s' \<Rightarrow> pre_holds pre s' xs))"


definition obj_S :: MemoryObject where
  "obj_S = \<lparr>mo_id = 4, address = 0x4000, size_expr = SymbolicExpr 0, segment = 1\<rparr>"

definition obj_T :: MemoryObject where
  "obj_T = \<lparr>mo_id = 5, address = 0x5000, size_expr = ConstantExpr 4, segment = 1\<rparr>"

section \<open>The solver and the pointer resolver\<close>

text \<open>
  The predicates the resolver hands to the solver.  \<open>BoundsCheckPointer mo p\<close> is
  \<open>mo->getBoundsCheckPointer(p)\<close>; the others are the expression constructors of the same
  names (\<open>IsZero\<close> is \<open>Expr::createIsZero\<close>).
\<close>

datatype Query =
    BoundsCheckPointer MemoryObject KValue
  | UgeExpr Expr Expr
  | UltExpr Expr Expr
  | IsZero Expr
  | EqExpr Expr Expr

text \<open>
  The solver is an oracle for the constraints of the current execution state; \<open>None\<close> is
  a failed call (the C++ functions return \<open>false\<close>).
\<close>

record TimingSolver =
  getValue :: "Expr \<Rightarrow> u64 option"
  mayBeTrue :: "Query \<Rightarrow> bool option"
  mustBeTrue :: "Query \<Rightarrow> bool option"

text \<open>
  Modelled from the spec: \<open>getBaseExpr\<close> (Memory.h) is not among the sources; it is the
  constant expression of the base address (\<open>base_addr()\<close>, section 6).
\<close>

definition getBaseExpr :: "MemoryObject \<Rightarrow> Expr" where
  "getBaseExpr mo = ConstantExpr (address mo)"

subsection \<open>resolveConstantAddress\<close>

text \<open>
  The result is \<open>Inr (Some pair)\<close> when the function returns \<open>true\<close> (it has then written
  \<open>result\<close>), \<open>Inr None\<close> when it returns \<open>false\<close> (\<open>result\<close> untouched).  \<open>cast<ConstantExpr>\<close>
  of a symbolic expression fails its assertion; \<open>*objects.lookup(...)\<close> of an absent key
  dereferences a null pointer.  The local \<open>unsigned size\<close> is 32 bits wide.
\<close>

definition resolveConstantAddress :: "AddressSpace \<Rightarrow> KValue \<Rightarrow> fault + ObjectPair option" where
  "resolveConstantAddress as pointer =
     (case getSegment pointer of
        SymbolicExpr n \<Rightarrow> Inl AssertionFailed
      | ConstantExpr seg \<Rightarrow>
          if seg \<noteq> 0 then
            (case pm_lookup id seg (segmentMap as) of
               None \<Rightarrow> Inr None
             | Some res \<Rightarrow>
                 (case pm_lookup address (snd res) (objects as) of
                    None \<Rightarrow> Inl NullDereference
                  | Some objpair \<Rightarrow> Inr (Some objpair)))
          else
            (case getOffset pointer of
               SymbolicExpr n \<Rightarrow> Inl AssertionFailed
             | ConstantExpr addr \<Rightarrow>
                 (case pm_lookup_previous address (hack addr) (objects as) of
                    None \<Rightarrow> Inr None
                  | Some res \<Rightarrow>
                      (case size_expr (fst res) of
                         SymbolicExpr n \<Rightarrow> Inr None
                       | ConstantExpr ce \<Rightarrow>
                           let size = (ucast ce :: u32) in
                           if (size = 0 \<and> addr = address (fst res))
                              \<or> addr - address (fst res) < ucast size
                           then Inr (Some res)
                           else Inr None))))"

subsection \<open>resolveOne\<close>

datatype search = SolverFailed | Found ObjectPair | NotFound

text \<open>The loop \<open>while (oi != begin) { --oi; ... }\<close> over the entries before the seed.\<close>

fun resolveOne_backward :: "TimingSolver \<Rightarrow> KValue \<Rightarrow> MemoryMap \<Rightarrow> search" where
  "resolveOne_backward solver pointer [] = NotFound"
| "resolveOne_backward solver pointer (oi # rest) =
     (case mayBeTrue solver (BoundsCheckPointer (fst oi) pointer) of
        None \<Rightarrow> SolverFailed
      | Some True \<Rightarrow> Found oi
      | Some False \<Rightarrow>
          (case mustBeTrue solver (UgeExpr (getOffset pointer) (getBaseExpr (fst oi))) of
             None \<Rightarrow> SolverFailed
           | Some True \<Rightarrow> NotFound
           | Some False \<Rightarrow> resolveOne_backward solver pointer rest))"

text \<open>The loop \<open>for (oi = start; oi != end; ++oi)\<close>.\<close>

fun resolveOne_forward :: "TimingSolver \<Rightarrow> KValue \<Rightarrow> MemoryMap \<Rightarrow> search" where
  "resolveOne_forward solver pointer [] = NotFound"
| "resolveOne_forward solver pointer (oi # rest) =
     (case mustBeTrue solver (UltExpr (getOffset pointer) (getBaseExpr (fst oi))) of
        None \<Rightarrow> SolverFailed
      | Some True \<Rightarrow> NotFound
      | Some False \<Rightarrow>
          (case mayBeTrue solver (BoundsCheckPointer (fst oi) pointer) of
             None \<Rightarrow> SolverFailed
           | Some True \<Rightarrow> Found oi
           | Some False \<Rightarrow> resolveOne_forward solver pointer rest))"

text \<open>The cheap search: the floor object of the example, when the example lies inside it.\<close>

definition cheap_search :: "AddressSpace \<Rightarrow> u64 \<Rightarrow> ObjectPair option" where
  "cheap_search as example =
     (case pm_lookup_previous address (hack example) (objects as) of
        None \<Rightarrow> None
      | Some res \<Rightarrow>
          (case size_expr (fst res) of
             SymbolicExpr n \<Rightarrow> None
           | ConstantExpr ce \<Rightarrow>
               if example - address (fst res) < ce then Some res else None))"

text \<open>
  The segment for the rest of the call: the constant itself, or a value the solver
  gives for a symbolic segment (\<open>None\<close> when that call fails).
\<close>

definition concrete_segment :: "TimingSolver \<Rightarrow> KValue \<Rightarrow> u64 option" where
  "concrete_segment solver pointer =
     (case getSegment pointer of
        ConstantExpr v \<Rightarrow> Some v
      | SymbolicExpr n \<Rightarrow> getValue solver (getSegment pointer))"

text \<open>
  \<open>result\<close> and \<open>success\<close> are reference parameters: the function gets their values at the
  call and returns, with its own return value first, their values at the return.
\<close>

definition resolveOne ::
  "AddressSpace \<Rightarrow> TimingSolver \<Rightarrow> KValue \<Rightarrow> ObjectPair option \<Rightarrow> bool
     \<Rightarrow> fault + (bool \<times> ObjectPair option \<times> bool)" where
  "resolveOne as solver pointer result success =
     (if isConstant pointer then
        (case resolveConstantAddress as pointer of
           Inl f \<Rightarrow> Inl f
         | Inr None \<Rightarrow> Inr (True, result, False)
         | Inr (Some r) \<Rightarrow> Inr (True, Some r, True))
      else
        (case concrete_segment solver pointer of
           None \<Rightarrow> Inr (False, result, success)
         | Some seg \<Rightarrow>
             if seg \<noteq> 0 then
               (case resolveConstantAddress as
                       \<lparr>getSegment = ConstantExpr seg, getOffset = getOffset pointer\<rparr> of
                  Inl f \<Rightarrow> Inl f
                | Inr None \<Rightarrow> Inr (False, result, success)
                | Inr (Some r) \<Rightarrow> Inr (True, Some r, success))
             else
               (case getValue solver (getOffset pointer) of
                  None \<Rightarrow> Inr (False, result, success)
                | Some example \<Rightarrow>
                    (case cheap_search as example of
                       Some res \<Rightarrow> Inr (True, Some res, True)
                     | None \<Rightarrow>
                         (case resolveOne_backward solver pointer
                                 (fst (pm_upper_bound address (hack example) (objects as))) of
                            SolverFailed \<Rightarrow> Inr (False, result, success)
                          | Found r \<Rightarrow> Inr (True, Some r, True)
                          | NotFound \<Rightarrow>
                              (case resolveOne_forward solver pointer
                                      (snd (pm_upper_bound address (hack example) (objects as))) of
                                 SolverFailed \<Rightarrow> Inr (False, result, success)
                               | Found r \<Rightarrow> Inr (True, Some r, True)
                               | NotFound \<Rightarrow> Inr (True, result, False)))))))"

subsection \<open>resolve\<close>

type_synonym ResolutionList = "ObjectPair list"

text \<open>
  \<open>checkPointerInObject\<close> returns 0, 1 or 2 and appends to \<open>rl\<close>.  \<open>rl.size()\<close> is compared
  with the 32-bit \<open>maxResolutions\<close> as numbers.
\<close>

definition checkPointerInObject ::
  "TimingSolver \<Rightarrow> KValue \<Rightarrow> ObjectPair \<Rightarrow> ResolutionList \<Rightarrow> u32 \<Rightarrow> int \<times> ResolutionList" where
  "checkPointerInObject solver pointer op rl maxResolutions =
     (let inBounds = BoundsCheckPointer (fst op) pointer in
      case mayBeTrue solver inBounds of
        None \<Rightarrow> (1, rl)
      | Some False \<Rightarrow> (2, rl)
      | Some True \<Rightarrow>
          (let rl' = rl @ [op]; size = length rl' in
           if size = 1 then
             (case mustBeTrue solver inBounds of
                None \<Rightarrow> (1, rl')
              | Some True \<Rightarrow> (0, rl')
              | Some False \<Rightarrow> (2, rl'))
           else if size = unat maxResolutions then (1, rl')
           else (2, rl')))"

text \<open>
  The wall clock is an oracle: \<open>delta k\<close> is what \<open>timer.delta()\<close> reads at the \<open>k\<close>-th
  timeout check of a call of \<open>resolve\<close>.  A timeout of 0 is no timeout.
\<close>

definition timed_out :: "nat \<Rightarrow> (nat \<Rightarrow> nat) \<Rightarrow> nat \<Rightarrow> bool" where
  "timed_out timeout delta k = (timeout \<noteq> 0 \<and> timeout < delta k)"

text \<open>
  The two loops of \<open>resolveConstantSegment\<close>.  The first component of the result is
  \<open>Some b\<close> when the function has returned \<open>b\<close> from inside the loop, \<open>None\<close> when the loop
  was left (by \<open>break\<close> or at its end); the third counts the timeout checks made so far.
\<close>

fun resolve_backward ::
  "TimingSolver \<Rightarrow> nat \<Rightarrow> (nat \<Rightarrow> nat) \<Rightarrow> KValue \<Rightarrow> u32 \<Rightarrow> MemoryMap \<Rightarrow> ResolutionList \<Rightarrow> nat
     \<Rightarrow> bool option \<times> ResolutionList \<times> nat" where
  "resolve_backward solver timeout delta pointer maxResolutions [] rl k = (None, rl, k)"
| "resolve_backward solver timeout delta pointer maxResolutions (oi # rest) rl k =
     (if timed_out timeout delta k then (Some True, rl, Suc k)
      else
        (case checkPointerInObject solver pointer oi rl maxResolutions of
           (incomplete, rl') \<Rightarrow>
             if incomplete \<noteq> 2 then (Some (incomplete \<noteq> 0), rl', Suc k)
             else
               (case mustBeTrue solver (UgeExpr (getOffset pointer) (getBaseExpr (fst oi))) of
                  None \<Rightarrow> (Some True, rl', Suc k)
                | Some True \<Rightarrow> (None, rl', Suc k)
                | Some False \<Rightarrow>
                    resolve_backward solver timeout delta pointer maxResolutions rest rl' (Suc k))))"

fun resolve_forward ::
  "TimingSolver \<Rightarrow> nat \<Rightarrow> (nat \<Rightarrow> nat) \<Rightarrow> KValue \<Rightarrow> u32 \<Rightarrow> MemoryMap \<Rightarrow> ResolutionList \<Rightarrow> nat
     \<Rightarrow> bool option \<times> ResolutionList \<times> nat" where
  "resolve_forward solver timeout delta pointer maxResolutions [] rl k = (None, rl, k)"
| "resolve_forward solver timeout delta pointer maxResolutions (oi # rest) rl k =
     (if timed_out timeout delta k then (Some True, rl, Suc k)
      else
        (case mustBeTrue solver (UltExpr (getOffset pointer) (getBaseExpr (fst oi))) of
           None \<Rightarrow> (Some True, rl, Suc k)
         | Some True \<Rightarrow> (None, rl, Suc k)
         | Some False \<Rightarrow>
             (case checkPointerInObject solver pointer oi rl maxResolutions of
                (incomplete, rl') \<Rightarrow>
                  if incomplete \<noteq> 2 then (Some (incomplete \<noteq> 0), rl', Suc k)
                  else resolve_forward solver timeout delta pointer maxResolutions rest rl' (Suc k))))"

definition resolveConstantSegment ::
  "AddressSpace \<Rightarrow> TimingSolver \<Rightarrow> KValue \<Rightarrow> ResolutionList \<Rightarrow> u32 \<Rightarrow> nat \<Rightarrow> (nat \<Rightarrow> nat) \<Rightarrow> nat
     \<Rightarrow> fault + (bool \<times> ResolutionList \<times> nat)" where
  "resolveConstantSegment as solver pointer rl maxResolutions timeout delta k =
     (case getSegment pointer of
        SymbolicExpr n \<Rightarrow> Inl AssertionFailed
      | ConstantExpr seg \<Rightarrow>
          if seg \<noteq> 0 then
            (case resolveConstantAddress as pointer of
               Inl f \<Rightarrow> Inl f
             | Inr None \<Rightarrow> Inr (False, rl, k)
             | Inr (Some res) \<Rightarrow> Inr (False, rl @ [res], k))
          else
            (case getValue solver (getOffset pointer) of
               None \<Rightarrow> Inr (True, rl, k)
             | Some example \<Rightarrow>
                 (case resolve_backward solver timeout delta pointer maxResolutions
                         (fst (pm_upper_bound address (hack example) (objects as))) rl k of
                    (Some b, rl', k') \<Rightarrow> Inr (b, rl', k')
                  | (None, rl', k') \<Rightarrow>
                      (case resolve_forward solver timeout delta pointer maxResolutions
                              (snd (pm_upper_bound address (hack example) (objects as))) rl' k' of
                         (Some b, rl'', k'') \<Rightarrow> Inr (b, rl'', k'')
                       | (None, rl'', k'') \<Rightarrow> Inr (False, rl'', k'')))))"

text \<open>The loop of \<open>resolve\<close> over the entries of the segment map.\<close>

fun resolve_segments ::
  "AddressSpace \<Rightarrow> TimingSolver \<Rightarrow> nat \<Rightarrow> (nat \<Rightarrow> nat) \<Rightarrow> KValue \<Rightarrow> SegmentMap \<Rightarrow> ResolutionList \<Rightarrow> nat
     \<Rightarrow> fault + (bool \<times> ResolutionList)" where
  "resolve_segments as solver timeout delta pointer [] rl k = Inr (False, rl)"
| "resolve_segments as solver timeout delta pointer (res # rest) rl k =
     (if timed_out timeout delta k then Inr (True, rl)
      else
        (case mayBeTrue solver (EqExpr (getSegment pointer) (ConstantExpr (fst res))) of
           None \<Rightarrow> Inr (True, rl)
         | Some False \<Rightarrow> resolve_segments as solver timeout delta pointer rest rl (Suc k)
         | Some True \<Rightarrow>
             (case pm_lookup address (snd res) (objects as) of
                None \<Rightarrow> Inl NullDereference
              | Some pair \<Rightarrow>
                  resolve_segments as solver timeout delta pointer rest (rl @ [pair]) (Suc k))))"

definition resolve ::
  "AddressSpace \<Rightarrow> TimingSolver \<Rightarrow> KValue \<Rightarrow> ResolutionList \<Rightarrow> u32 \<Rightarrow> nat \<Rightarrow> (nat \<Rightarrow> nat)
     \<Rightarrow> fault + (bool \<times> ResolutionList)" where
  "resolve as solver pointer rl maxResolutions timeout delta =
     (if isConstantExpr (getSegment pointer) then
        (case resolveConstantSegment as solver pointer rl maxResolutions timeout delta 0 of
           Inl f \<Rightarrow> Inl f
         | Inr (b, rl', k) \<Rightarrow> Inr (b, rl'))
      else
        (case mayBeTrue solver (IsZero (getSegment pointer)) of
           None \<Rightarrow> Inr (True, rl)
         | Some False \<Rightarrow> resolve_segments as solver timeout delta pointer (segmentMap as) rl 0
         | Some True \<Rightarrow>
             (case resolveConstantSegment as solver
                     \<lparr>getSegment = ConstantExpr 0, getOffset = getOffset pointer\<rparr>
                     rl maxResolutions timeout delta 0 of
                Inl f \<Rightarrow> Inl f
              | Inr (True, rl', k) \<Rightarrow> Inr (True, rl')
              | Inr (False, rl', k) \<Rightarrow>
                  resolve_segments as solver timeout delta pointer (segmentMap as) rl' k)))"

text \<open>
  \<open>resolve\<close> and its loop over the segment map once more, with the number of timeout checks
  made so far as a third component of the result (as the two loops of
  \<open>resolveConstantSegment\<close> have it).  Erasing the count gives \<open>resolve\<close>.
\<close>

fun resolve_segments_counting ::
  "AddressSpace \<Rightarrow> TimingSolver \<Rightarrow> nat \<Rightarrow> (nat \<Rightarrow> nat) \<Rightarrow> KValue \<Rightarrow> SegmentMap \<Rightarrow> ResolutionList \<Rightarrow> nat
     \<Rightarrow> fault + (bool \<times> ResolutionList \<times> nat)" where
  "resolve_segments_counting as solver timeout delta pointer [] rl k = Inr (False, rl, k)"
| "resolve_segments_counting as solver timeout delta pointer (res # rest) rl k =
     (if timed_out timeout delta k then Inr (True, rl, Suc k)
      else
        (case mayBeTrue solver (EqExpr (getSegment pointer) (ConstantExpr (fst res))) of
           None \<Rightarrow> Inr (True, rl, Suc k)
         | Some False \<Rightarrow> resolve_segments_counting as solver timeout delta pointer rest rl (Suc k)
         | Some True \<Rightarrow>
             (case pm_lookup address (snd res) (objects as) of
                None \<Rightarrow> Inl NullDereference
              | Some pair \<Rightarrow>
                  resolve_segments_counting as solver timeout delta pointer rest (rl @ [pair]) (Suc k))))"

definition resolve_counting ::
  "AddressSpace \<Rightarrow> TimingSolver \<Rightarrow> KValue \<Rightarrow> ResolutionList \<Rightarrow> u32 \<Rightarrow> nat \<Rightarrow> (nat \<Rightarrow> nat)
     \<Rightarrow> fault + (bool \<times> ResolutionList \<times> nat)" where
  "resolve_counting as solver pointer rl maxResolutions timeout delta =
     (if isConstantExpr (getSegment pointer) then
        resolveConstantSegment as solver pointer rl maxResolutions timeout delta 0
      else
        (case mayBeTrue solver (IsZero (getSegment pointer)) of
           None \<Rightarrow> Inr (True, rl, 0)
         | Some False \<Rightarrow>
             resolve_segments_counting as solver timeout delta pointer (segmentMap as) rl 0
         | Some True \<Rightarrow>
             (case resolveConstantSegment as solver
                     \<lparr>getSegment = ConstantExpr 0, getOffset = getOffset pointer\<rparr>
                     rl maxResolutions timeout delta 0 of
                Inl f \<Rightarrow> Inl f
              | Inr (True, rl', k) \<Rightarrow> Inr (True, rl', k)
              | Inr (False, rl', k) \<Rightarrow>
                  resolve_segments_counting as solver timeout delta pointer (segmentMap as) rl' k)))"

definition erase_count :: "fault + (bool \<times> ResolutionList \<times> nat) \<Rightarrow> fault + (bool \<times> ResolutionList)" where
  "erase_count r = (case r of Inl f \<Rightarrow> Inl f | Inr (b, rl, k) \<Rightarrow> Inr (b, rl))"

subsection \<open>What the solver's answers mean\<close>

text \<open>
  The constraints of the execution state are described by the set of assignments (of
  the symbolic expressions) that satisfy them.
\<close>

type_synonym assignment = "nat \<Rightarrow> u64"

fun eval :: "assignment \<Rightarrow> Expr \<Rightarrow> u64" where
  "eval \<sigma> (ConstantExpr v) = v"
| "eval \<sigma> (SymbolicExpr n) = \<sigma> n"

text \<open>
  Modelled from the spec: \<open>getBoundsCheckPointer\<close> (Memory.h) is not among the sources.
  Section 4.4 of the specification: "offset lies within [mo.base, mo.base + mo.size), or
  equals the base for zero-sized objects", with the unsigned subtraction of section 4.3.
\<close>

definition in_bounds :: "assignment \<Rightarrow> MemoryObject \<Rightarrow> u64 \<Rightarrow> bool" where
  "in_bounds \<sigma> mo off =
     (off - address mo < eval \<sigma> (size_expr mo)
      \<or> (eval \<sigma> (size_expr mo) = 0 \<and> off = address mo))"

fun holds :: "assignment \<Rightarrow> Query \<Rightarrow> bool" where
  "holds \<sigma> (BoundsCheckPointer mo p) = in_bounds \<sigma> mo (eval \<sigma> (getOffset p))"
| "holds \<sigma> (UgeExpr a b) = (eval \<sigma> b \<le> eval \<sigma> a)"
| "holds \<sigma> (UltExpr a b) = (eval \<sigma> a < eval \<sigma> b)"
| "holds \<sigma> (IsZero a) = (eval \<sigma> a = 0)"
| "holds \<sigma> (EqExpr a b) = (eval \<sigma> a = eval \<sigma> b)"

text \<open>
  A solver answers for the constraints with satisfying assignments \<open>M\<close> when every answer it
  gives is right: a value is the value under some satisfying assignment, "may be true" is
  truth under some, "must be true" truth under all of them.
\<close>

definition answers_for :: "TimingSolver \<Rightarrow> assignment set \<Rightarrow> bool" where
  "answers_for solver M =
     ((\<forall>e v. getValue solver e = Some v \<longrightarrow> (\<exists>\<sigma> \<in> M. eval \<sigma> e = v))
      \<and> (\<forall>q b. mayBeTrue solver q = Some b \<longrightarrow> b = (\<exists>\<sigma> \<in> M. holds \<sigma> q))
      \<and> (\<forall>q b. mustBeTrue solver q = Some b \<longrightarrow> b = (\<forall>\<sigma> \<in> M. holds \<sigma> q)))"

text \<open>The solver that decides every query over a finite list of satisfying assignments.\<close>

definition model_solver :: "assignment list \<Rightarrow> TimingSolver" where
  "model_solver ms =
     \<lparr>getValue = (\<lambda>e. case ms of [] \<Rightarrow> None | \<sigma> # rest \<Rightarrow> Some (eval \<sigma> e)),
      mayBeTrue = (\<lambda>q. Some (list_ex (\<lambda>\<sigma>. holds \<sigma> q) ms)),
      mustBeTrue = (\<lambda>q. Some (list_all (\<lambda>\<sigma>. holds \<sigma> q) ms))\<rparr>"

text \<open>A solver none of whose calls fails.\<close>

definition never_fails :: "TimingSolver \<Rightarrow> bool" where
  "never_fails solver =
     ((\<forall>e. getValue solver e \<noteq> None) \<and> (\<forall>q. mayBeTrue solver q \<noteq> None)
      \<and> (\<forall>q. mustBeTrue solver q \<noteq> None))"

text \<open>
  The objects of an address space are separated, under the constraints, when no address
  inside an object lies below its base (the object does not wrap around the end of the
  address space) or at or above the base of an object with a greater base (objects do
  not overlap).  \<open>layout_fits\<close> checks this for objects of constant size.
\<close>

definition separated :: "assignment set \<Rightarrow> AddressSpace \<Rightarrow> bool" where
  "separated M as =
     (\<forall>\<sigma> \<in> M. \<forall>a. \<forall>e \<in> set (objects as). in_bounds \<sigma> (fst e) a \<longrightarrow>
        address (fst e) \<le> a
        \<and> (\<forall>e' \<in> set (objects as). address (fst e) < address (fst e') \<longrightarrow> a < address (fst e')))"

fun layout_fits :: "MemoryMap \<Rightarrow> bool" where
  "layout_fits [] = True"
| "layout_fits [e] =
     (case size_expr (fst e) of
        ConstantExpr sz \<Rightarrow> unat (address (fst e)) + unat sz \<le> 2 ^ 64
      | SymbolicExpr n \<Rightarrow> False)"
| "layout_fits (e # e' # es) =
     ((case size_expr (fst e) of
         ConstantExpr sz \<Rightarrow> unat (address (fst e)) + max 1 (unat sz) \<le> unat (address (fst e'))
       | SymbolicExpr n \<Rightarrow> False)
      \<and> layout_fits (e' # es))"

text \<open>
  The list is below the cap while it is shorter than \<open>maxResolutions\<close> (a cap of 0 or 1 is
  never compared with a list of two or more); it is at the cap when it has exactly
  \<open>maxResolutions \<ge> 2\<close> entries.  A solver extends another when it gives the same answer
  wherever the other gives one.
\<close>

definition below_cap :: "u32 \<Rightarrow> ResolutionList \<Rightarrow> bool" where
  "below_cap maxResolutions rl = (unat maxResolutions < 2 \<or> length rl < unat maxResolutions)"

definition at_cap :: "u32 \<Rightarrow> ResolutionList \<Rightarrow> bool" where
  "at_cap maxResolutions rl = (2 \<le> unat maxResolutions \<and> length rl = unat maxResolutions)"

definition extends :: "TimingSolver \<Rightarrow> TimingSolver \<Rightarrow> bool" where
  "extends solver' solver =
     ((\<forall>e v. getValue solver e = Some v \<longrightarrow> getValue solver' e = Some v)
      \<and> (\<forall>q b. mayBeTrue solver q = Some b \<longrightarrow> mayBeTrue solver' q = Some b)
      \<and> (\<forall>q b. mustBeTrue solver q = Some b \<longrightarrow> mustBeTrue solver' q = Some b))"

text \<open>
  In the words of the implicit claim about the loop over the segment map: the segments
  \<open>s\<close> with \<open>mayBeTrue(pointer.segment == s)\<close>, and one (object, state) entry of the
  object map for each segment of a list.
\<close>

definition matching_segments :: "AddressSpace \<Rightarrow> TimingSolver \<Rightarrow> KValue \<Rightarrow> SegmentMap" where
  "matching_segments as solver pointer =
     filter (\<lambda>res. mayBeTrue solver (EqExpr (getSegment pointer) (ConstantExpr (fst res))) = Some True)
       (segmentMap as)"

definition object_entries :: "AddressSpace \<Rightarrow> SegmentMap \<Rightarrow> ResolutionList" where
  "object_entries as segs =
     concat (map (\<lambda>res. case pm_lookup address (snd res) (objects as) of
                           None \<Rightarrow> [] | Some pair \<Rightarrow> [pair]) segs)"

subsection \<open>Address spaces and constraints of the scenarios\<close>

definition as_AB :: AddressSpace where
  "as_AB = \<lparr>cowKey = 9, objects = [(obj_A, 0), (obj_B, 1)], segmentMap = []\<rparr>"

definition obj_G :: MemoryObject where
  "obj_G = \<lparr>mo_id = 6, address = 0x1000, size_expr = ConstantExpr 0x100000000, segment = 0\<rparr>"

definition as_G :: AddressSpace where
  "as_G = \<lparr>cowKey = 9, objects = [(obj_G, 0)], segmentMap = []\<rparr>"

definition as_S :: AddressSpace where
  "as_S = \<lparr>cowKey = 9, objects = [(obj_S, 0)], segmentMap = [(1, obj_S)]\<rparr>"

definition obj_C :: MemoryObject where
  "obj_C = \<lparr>mo_id = 7, address = 0x2800, size_expr = ConstantExpr 8, segment = 0\<rparr>"

definition as_ABC :: AddressSpace where
  "as_ABC = \<lparr>cowKey = 9, objects = [(obj_A, 0), (obj_B, 1), (obj_C, 2)], segmentMap = []\<rparr>"

definition three_models :: "assignment list" where
  "three_models = [\<lambda>n. 0x1004, \<lambda>n. 0x2004, \<lambda>n. 0x2804]"

definition flat_symbolic :: KValue where
  "flat_symbolic = \<lparr>getSegment = ConstantExpr 0, getOffset = SymbolicExpr 0\<rparr>"

text \<open>
  A family of address spaces: \<open>n\<close> objects, the \<open>i\<close>-th with address and segment \<open>i\<close>, and
  constraints under which the symbolic segment 0 is any of \<open>1, \<dots>, n\<close>.
\<close>

definition seg_obj :: "nat \<Rightarrow> MemoryObject" where
  "seg_obj i = \<lparr>mo_id = i, address = of_nat i, size_expr = ConstantExpr 1, segment = of_nat i\<rparr>"

definition many_segments :: "nat \<Rightarrow> AddressSpace" where
  "many_segments n =
     \<lparr>cowKey = 1,
      objects = map (\<lambda>i. (seg_obj (Suc i), i)) [0..<n],
      segmentMap = map (\<lambda>i. (of_nat (Suc i), seg_obj (Suc i))) [0..<n]\<rparr>"

definition segment_models :: "nat \<Rightarrow> assignment list" where
  "segment_models n = map (\<lambda>i. (\<lambda>v. of_nat (Suc i))) [0..<n]"

definition symbolic_segment :: KValue where
  "symbolic_segment = \<lparr>getSegment = SymbolicExpr 0, getOffset = ConstantExpr 0\<rparr>"

text \<open>Constraints under which the symbolic size 0 is 16 and the symbolic segment 1 is 1.\<close>

definition sized_16 :: "assignment list" where
  "sized_16 = [\<lambda>n. if n = 1 then 1 else 16]"

text \<open>Constraints under which the symbolic offset is 0x1004 or 0x2004.\<close>

definition two_models :: "assignment list" where
  "two_models = [\<lambda>n. 0x1004, \<lambda>n. 0x2004]"

text \<open>Two objects with segments 1 and 2, and constraints under which every symbol is 1 or 2.\<close>

definition as_two_segments :: AddressSpace where
  "as_two_segments =
     \<lparr>cowKey = 1, objects = [(seg_obj 1, 0), (seg_obj 2, 1)],
      segmentMap = [(1, seg_obj 1), (2, seg_obj 2)]\<rparr>"

definition one_or_two :: "assignment list" where
  "one_or_two = [\<lambda>n. 1, \<lambda>n. 2]"

text \<open>
  Two flat objects and three objects with segments 1, 2 and 3; constraints under which
  the pair (symbolic offset 0, symbolic segment 1) is (0x1004, 0), (0x2004, 0), (0, 1) or
  (0, 3).
\<close>

definition as_mixed :: AddressSpace where
  "as_mixed =
     \<lparr>cowKey = 1,
      objects = [(seg_obj 1, 2), (seg_obj 2, 3), (seg_obj 3, 4), (obj_A, 0), (obj_B, 1)],
      segmentMap = [(1, seg_obj 1), (2, seg_obj 2), (3, seg_obj 3)]\<rparr>"

definition mixed_models :: "assignment list" where
  "mixed_models =
     [\<lambda>n. if n = 1 then 0 else 0x1004, \<lambda>n. if n = 1 then 0 else 0x2004,
      \<lambda>n. if n = 1 then 1 else 0, \<lambda>n. if n = 1 then 3 else 0]"

definition symbolic_pointer :: KValue where
  "symbolic_pointer = \<lparr>getSegment = SymbolicExpr 1, getOffset = SymbolicExpr 0\<rparr>"

section \<open>Copy on write\<close>

lemma getWriteable_result_owned:
  assumes "getWriteable h as mo os = Inr (h', as', os')"
  shows "os' < length h' \<and> \<not> readOnly (h' ! os') \<and> copyOnWriteOwner (h' ! os') = cowKey as'"
  using assms by (auto simp: getWriteable_def Let_def nth_append split: if_splits)

text \<open>
  C8: getWriteable is idempotent.  When a call returns the state \<open>os'\<close> (with the heap
  and the address space it leaves), a second call on \<open>os'\<close> returns the very same
  pointer and changes neither the heap nor the binding.
\<close>

theorem getWriteable_idempotent:
  assumes "getWriteable h as mo os = Inr (h', as', os')"
  shows "getWriteable h' as' mo os' = Inr (h', as', os')"
proof -
  from getWriteable_result_owned [OF assms]
  have "os' < length h'" "\<not> readOnly (h' ! os')" "copyOnWriteOwner (h' ! os') = cowKey as'"
    by simp_all
  then show ?thesis by (simp add: getWriteable_def)
qed

theorem getWriteable_idempotent_witness:
  "getWriteable [fresh_state\<lparr>copyOnWriteOwner := 7\<rparr>]
       \<lparr>cowKey = 9, objects = [(obj_A, 0)], segmentMap = []\<rparr> obj_A 0
     = Inr ([fresh_state\<lparr>copyOnWriteOwner := 7\<rparr>, fresh_state\<lparr>copyOnWriteOwner := 9\<rparr>],
            \<lparr>cowKey = 9, objects = [(obj_A, 1)], segmentMap = []\<rparr>, 1)
   \<and> getWriteable [fresh_state\<lparr>copyOnWriteOwner := 7\<rparr>, fresh_state\<lparr>copyOnWriteOwner := 9\<rparr>]
       \<lparr>cowKey = 9, objects = [(obj_A, 1)], segmentMap = []\<rparr> obj_A 1
     = Inr ([fresh_state\<lparr>copyOnWriteOwner := 7\<rparr>, fresh_state\<lparr>copyOnWriteOwner := 9\<rparr>],
            \<lparr>cowKey = 9, objects = [(obj_A, 1)], segmentMap = []\<rparr>, 1)"
proof -
  have first: "getWriteable [fresh_state\<lparr>copyOnWriteOwner := 7\<rparr>]
       \<lparr>cowKey = 9, objects = [(obj_A, 0)], segmentMap = []\<rparr> obj_A 0
     = Inr ([fresh_state\<lparr>copyOnWriteOwner := 7\<rparr>, fresh_state\<lparr>copyOnWriteOwner := 9\<rparr>],
            \<lparr>cowKey = 9, objects = [(obj_A, 1)], segmentMap = []\<rparr>, 1)"
    by (simp add: getWriteable_def fresh_state_def obj_A_def)
  from getWriteable_idempotent [OF first] first show ?thesis by simp
qed

subsection \<open>Owners of the reachable object states\<close>

lemma set_pm_replace: "set (pm_replace key kv m) \<subseteq> insert kv (set m)"
  by (induction m) auto

lemma set_pm_remove: "set (pm_remove key k m) \<subseteq> set m"
  by (induction m) auto

lemma apply_operation_succeeds_iff:
  "(\<exists>s'. apply_operation (h, as) x = Inr s') \<longleftrightarrow> asserted h x"
  by (cases x) (auto simp: bindObject_def getWriteable_def Let_def split: sum.splits)

lemma bindObject_owners_ok:
  assumes "owners_ok h as" and "bindObject h as mo os = Inr (h', as')"
  shows "owners_ok h' as' \<and> cowKey as' = cowKey as"
proof -
  from assms(2) have os: "os < length h"
    and h': "h' = h[os := (h ! os)\<lparr>copyOnWriteOwner := cowKey as\<rparr>]"
    and key: "cowKey as' = cowKey as"
    and objs: "objects as' = pm_replace address (mo, os) (objects as)"
    by (auto simp: bindObject_def Let_def split: if_splits)
  have "snd e < length h' \<and>
        (copyOnWriteOwner (h' ! snd e) = 0 \<or> copyOnWriteOwner (h' ! snd e) = cowKey as')"
    if "e \<in> set (objects as')" for e
  proof -
    from that objs set_pm_replace [of address "(mo, os)" "objects as"]
    have "e = (mo, os) \<or> e \<in> set (objects as)" by auto
    then show ?thesis
      using assms(1) os h' key
      by (cases "snd e = os") (auto simp: owners_ok_def list_all_iff)
  qed
  with key show ?thesis by (simp add: owners_ok_def list_all_iff)
qed

lemma unbindObject_owners_ok:
  assumes "owners_ok h as"
  shows "owners_ok h (unbindObject as mo) \<and> cowKey (unbindObject as mo) = cowKey as"
proof -
  have "set (objects (unbindObject as mo)) \<subseteq> set (objects as)"
    using set_pm_remove [of address mo "objects as"] by (simp add: unbindObject_def Let_def)
  with assms show ?thesis
    by (auto simp: owners_ok_def list_all_iff unbindObject_def Let_def)
qed

lemma getWriteable_owners_ok:
  assumes "owners_ok h as" and "getWriteable h as mo os = Inr (h', as', os')"
  shows "owners_ok h' as' \<and> cowKey as' = cowKey as"
proof (cases "cowKey as = copyOnWriteOwner (h ! os)")
  case True
  with assms show ?thesis by (auto simp: getWriteable_def split: if_splits)
next
  case False
  with assms(2) have h': "h' = h @ [(h ! os)\<lparr>copyOnWriteOwner := cowKey as\<rparr>]"
    and key: "cowKey as' = cowKey as"
    and objs: "objects as' = pm_replace address (mo, length h) (objects as)"
    by (auto simp: getWriteable_def Let_def split: if_splits)
  have "snd e < length h' \<and>
        (copyOnWriteOwner (h' ! snd e) = 0 \<or> copyOnWriteOwner (h' ! snd e) = cowKey as')"
    if "e \<in> set (objects as')" for e
  proof -
    from that objs set_pm_replace [of address "(mo, length h)" "objects as"]
    have "e = (mo, length h) \<or> e \<in> set (objects as)" by auto
    then show ?thesis
      using assms(1) h' key by (auto simp: owners_ok_def list_all_iff nth_append)
  qed
  with key show ?thesis by (simp add: owners_ok_def list_all_iff)
qed

lemma apply_operation_owners_ok:
  assumes "owners_ok h as" and "apply_operation (h, as) x = Inr (h', as')"
  shows "owners_ok h' as' \<and> cowKey as' = cowKey as"
proof (cases x)
  case (BindObject mo os)
  with assms show ?thesis using bindObject_owners_ok by simp
next
  case (UnbindObject mo)
  with assms show ?thesis using unbindObject_owners_ok by auto
next
  case (GetWriteable mo os)
  with assms obtain os' where "getWriteable h as mo os = Inr (h', as', os')"
    by (auto split: sum.splits)
  with assms(1) show ?thesis using getWriteable_owners_ok by blast
qed

text \<open>
  C7: after every sequence of bindObject, unbindObject and getWriteable whose assertions
  hold (a fresh state for bindObject, a state that is not read-only for getWriteable),
  applied to an address space whose reachable states are owned by nobody or by the
  space itself (the empty space, for one), every reachable object state has
  copyOnWriteOwner 0 or the space's cowKey, and the key is unchanged.
\<close>

theorem owners_ok_run_operations:
  assumes "owners_ok h as" and "run_operations (h, as) xs = Inr (h', as')"
  shows "owners_ok h' as' \<and> cowKey as' = cowKey as"
  using assms
proof (induction xs arbitrary: h as)
  case Nil
  then show ?case by simp
next
  case (Cons x xs)
  from Cons.prems(2) obtain h1 as1 where
    step: "apply_operation (h, as) x = Inr (h1, as1)" and
    rest: "run_operations (h1, as1) xs = Inr (h', as')"
    by (auto split: sum.splits)
  from apply_operation_owners_ok [OF Cons.prems(1) step]
  have "owners_ok h1 as1" and "cowKey as1 = cowKey as" by simp_all
  with Cons.IH [OF _ rest] show ?case by simp
qed

theorem owners_ok_run_operations_witness:
  "owners_ok [fresh_state, fresh_state] (empty_space 9)
   \<and> run_operations ([fresh_state, fresh_state], empty_space 9)
        [BindObject obj_A 0, GetWriteable obj_B 1, UnbindObject obj_A]
     = Inr ([fresh_state\<lparr>copyOnWriteOwner := 9\<rparr>, fresh_state, fresh_state\<lparr>copyOnWriteOwner := 9\<rparr>],
            \<lparr>cowKey = 9, objects = [(obj_B, 2)], segmentMap = []\<rparr>)
   \<and> owners_ok [fresh_state\<lparr>copyOnWriteOwner := 9\<rparr>, fresh_state, fresh_state\<lparr>copyOnWriteOwner := 9\<rparr>]
        \<lparr>cowKey = 9, objects = [(obj_B, 2)], segmentMap = []\<rparr>"
proof -
  have start: "owners_ok [fresh_state, fresh_state] (empty_space 9)"
    by (simp add: owners_ok_def empty_space_def)
  have runs: "run_operations ([fresh_state, fresh_state], empty_space 9)
        [BindObject obj_A 0, GetWriteable obj_B 1, UnbindObject obj_A]
     = Inr ([fresh_state\<lparr>copyOnWriteOwner := 9\<rparr>, fresh_state, fresh_state\<lparr>copyOnWriteOwner := 9\<rparr>],
            \<lparr>cowKey = 9, objects = [(obj_B, 2)], segmentMap = []\<rparr>)"
    by (simp add: bindObject_def getWriteable_def unbindObject_def empty_space_def
        fresh_state_def obj_A_def obj_B_def Let_def)
  from owners_ok_run_operations [OF start runs] start runs show ?thesis by simp
qed

section \<open>Synchronisation of the segment map\<close>

lemma pm_lookup_replace:
  "pm_lookup key k (pm_replace key kv m) = (if key k = key (fst kv) then Some kv else pm_lookup key k m)"
  by (induction m) auto

lemma pm_lookup_Some:
  "pm_lookup key k m = Some e \<Longrightarrow> key (fst e) = key k \<and> e \<in> set m"
  by (induction m) (auto split: if_splits)

lemma pm_lookup_None_below:
  "\<forall>e \<in> set m. key k < key (fst e) \<Longrightarrow> pm_lookup key k m = None"
  by (induction m) auto

lemma pm_sorted_replace: "pm_sorted key m \<Longrightarrow> pm_sorted key (pm_replace key kv m)"
proof (induction m)
  case Nil
  then show ?case by (simp add: pm_sorted_def)
next
  case (Cons e es)
  have "set (pm_replace key kv es) \<subseteq> insert kv (set es)" by (rule set_pm_replace)
  with Cons show ?case by (auto simp: pm_sorted_def)
qed

lemma pm_sorted_remove: "pm_sorted key m \<Longrightarrow> pm_sorted key (pm_remove key k m)"
proof (induction m)
  case Nil
  then show ?case by (simp add: pm_sorted_def)
next
  case (Cons e es)
  have "set (pm_remove key k es) \<subseteq> set es" by (rule set_pm_remove)
  with Cons show ?case by (auto simp: pm_sorted_def)
qed

lemma pm_lookup_remove:
  "pm_sorted key m \<Longrightarrow>
   pm_lookup key k (pm_remove key k' m) = (if key k = key k' then None else pm_lookup key k m)"
proof (induction m)
  case Nil
  then show ?case by simp
next
  case (Cons e es)
  then show ?case
    by (auto simp: pm_sorted_def intro!: pm_lookup_None_below)
qed

lemma pm_lookup_sorted_iff:
  "pm_sorted key m \<Longrightarrow> pm_lookup key k m = Some e \<longleftrightarrow> e \<in> set m \<and> key (fst e) = key k"
  by (induction m) (auto simp: pm_sorted_def)


lemma pm_sorted_key_inj:
  assumes "pm_sorted key m" and "x \<in> set m" and "y \<in> set m" and "key (fst x) = key (fst y)"
  shows "x = y"
proof -
  from assms have "pm_lookup key (fst x) m = Some x" "pm_lookup key (fst x) m = Some y"
    by (simp_all add: pm_lookup_sorted_iff)
  then show ?thesis by simp
qed

lemma pm_lookup_key_cong: "key k = key k' \<Longrightarrow> pm_lookup key k m = pm_lookup key k' m"
  by (induction m) auto

lemma is_bound_same_address:
  "is_bound as m \<Longrightarrow> is_bound as m' \<Longrightarrow> address m = address m' \<Longrightarrow> m = m'"
  using pm_lookup_key_cong [of address m m' "objects as"]
  by (auto simp: is_bound_def split: option.splits)

lemma is_bound_iff:
  assumes "pm_sorted address (objects as)"
  shows "is_bound as m \<longleftrightarrow> m \<in> fst ` set (objects as)"
proof
  assume "is_bound as m"
  then obtain e where "pm_lookup address m (objects as) = Some e" "fst e = m"
    by (auto simp: is_bound_def split: option.splits)
  with pm_lookup_Some [of address m "objects as" e] show "m \<in> fst ` set (objects as)"
    by force
next
  note sorted = assms
  assume "m \<in> fst ` set (objects as)"
  then obtain p where "(m, p) \<in> set (objects as)" by auto
  with sorted have "pm_lookup address m (objects as) = Some (m, p)"
    by (simp add: pm_lookup_sorted_iff)
  then show "is_bound as m" by (simp add: is_bound_def)
qed

lemma bindObject_maps:
  assumes "bindObject h as mo os = Inr (h', as')"
  shows "objects as' = pm_replace address (mo, os) (objects as)"
    and "segmentMap as' = (if segment mo \<noteq> 0 then pm_replace id (segment mo, mo) (segmentMap as)
                           else segmentMap as)"
  using assms by (auto simp: bindObject_def Let_def split: if_splits)

lemma bindObject_wf_maps:
  assumes "wf_maps as" and "bindObject h as mo os = Inr (h', as')"
  shows "wf_maps as'"
  using assms(1) bindObject_maps [OF assms(2)]
  by (simp add: wf_maps_def pm_sorted_replace)

lemma bindObject_segment_sync:
  assumes wf: "wf_maps as" and sync: "segment_sync as"
    and pre: "sync_pre as (BindObject mo os)"
    and bind: "bindObject h as mo os = Inr (h', as')"
  shows "segment_sync as'"
proof -
  have bound': "is_bound as' m \<longleftrightarrow> (if address m = address mo then m = mo else is_bound as m)" for m
    using bindObject_maps(1) [OF bind] by (auto simp: is_bound_def pm_lookup_replace)
  have at': "segmentMap_at as' s =
      (if segment mo \<noteq> 0 \<and> s = segment mo then Some mo else segmentMap_at as s)" for s
    using bindObject_maps(2) [OF bind] by (simp add: segmentMap_at_def pm_lookup_replace)
  have others: "address m \<noteq> address mo \<and> (segment mo = 0 \<or> segment m \<noteq> segment mo)"
    if "is_bound as m" "m \<noteq> mo" for m
  proof -
    from wf that(1) obtain p where mem: "(m, p) \<in> set (objects as)"
      by (auto simp: is_bound_iff wf_maps_def)
    from pre have "\<forall>e \<in> set (objects as). fst e = mo \<or>
        (address (fst e) \<noteq> address mo \<and> (segment mo = 0 \<or> segment (fst e) \<noteq> segment mo))"
      by (simp add: list_all_iff)
    from this mem have "fst (m, p) = mo \<or>
        (address (fst (m, p)) \<noteq> address mo \<and> (segment mo = 0 \<or> segment (fst (m, p)) \<noteq> segment mo))"
      by (rule bspec)
    with that(2) show ?thesis by simp
  qed
  show ?thesis
    unfolding segment_sync_def
  proof (intro allI)
    fix s m
    from sync have old: "segmentMap_at as s = Some m \<longleftrightarrow> is_bound as m \<and> segment m = s \<and> s \<noteq> 0"
      by (simp add: segment_sync_def)
    show "segmentMap_at as' s = Some m \<longleftrightarrow> is_bound as' m \<and> segment m = s \<and> s \<noteq> 0"
    proof (cases "segment mo \<noteq> 0 \<and> s = segment mo")
      case True
      then have l: "segmentMap_at as' s = Some m \<longleftrightarrow> m = mo"
        by (auto simp: at')
      have r: "is_bound as' m \<and> segment m = s \<and> s \<noteq> 0 \<longleftrightarrow> m = mo"
        using True others [of m] by (cases "m = mo") (auto simp: bound')
      from l r show ?thesis by simp
    next
      case False
      then have l: "segmentMap_at as' s = segmentMap_at as s"
        by (auto simp: at')
      have r: "is_bound as' m \<and> segment m = s \<and> s \<noteq> 0
                 \<longleftrightarrow> is_bound as m \<and> segment m = s \<and> s \<noteq> 0"
        using False others [of m] by (cases "m = mo") (auto simp: bound')
      from l r old show ?thesis by simp
    qed
  qed
qed

lemma unbindObject_wf_maps: "wf_maps as \<Longrightarrow> wf_maps (unbindObject as mo)"
  by (simp add: wf_maps_def unbindObject_def Let_def pm_sorted_remove)

lemma unbindObject_segment_sync:
  assumes wf: "wf_maps as" and sync: "segment_sync as" and pre: "is_bound as mo"
  shows "segment_sync (unbindObject as mo)"
proof -
  let ?as' = "unbindObject as mo"
  have bound': "is_bound ?as' m \<longleftrightarrow> (if address m = address mo then False else is_bound as m)" for m
    using wf by (simp add: is_bound_def unbindObject_def Let_def pm_lookup_remove wf_maps_def)
  have at': "segmentMap_at ?as' s =
      (if segment mo \<noteq> 0 \<and> s = segment mo then None else segmentMap_at as s)" for s
    using wf by (simp add: segmentMap_at_def unbindObject_def Let_def pm_lookup_remove wf_maps_def)
  show ?thesis
    unfolding segment_sync_def
  proof (intro allI)
    fix s m
    from sync have old: "segmentMap_at as s = Some m \<longleftrightarrow> is_bound as m \<and> segment m = s \<and> s \<noteq> 0"
      by (simp add: segment_sync_def)
    from sync pre have mine: "segment mo \<noteq> 0 \<Longrightarrow> segmentMap_at as (segment mo) = Some mo"
      by (simp add: segment_sync_def)
    have same: "is_bound as m \<Longrightarrow> address m = address mo \<Longrightarrow> m = mo"
      using is_bound_same_address [OF _ pre] by blast
    show "segmentMap_at ?as' s = Some m \<longleftrightarrow> is_bound ?as' m \<and> segment m = s \<and> s \<noteq> 0"
    proof (cases "segment mo \<noteq> 0 \<and> s = segment mo")
      case True
      then have l: "segmentMap_at ?as' s \<noteq> Some m"
        by (simp add: at')
      have "\<not> (is_bound as m \<and> address m \<noteq> address mo \<and> segment m = s)"
      proof
        assume a: "is_bound as m \<and> address m \<noteq> address mo \<and> segment m = s"
        with old True have "segmentMap_at as s = Some m" by simp
        moreover from mine True have "segmentMap_at as s = Some mo" by simp
        ultimately show False using a by auto
      qed
      then have r: "\<not> (is_bound ?as' m \<and> segment m = s \<and> s \<noteq> 0)"
        by (auto simp: bound' split: if_splits)
      from l r show ?thesis by simp
    next
      case False
      then have l: "segmentMap_at ?as' s = segmentMap_at as s"
        by (auto simp: at')
      have r: "is_bound ?as' m \<and> segment m = s \<and> s \<noteq> 0
                 \<longleftrightarrow> is_bound as m \<and> segment m = s \<and> s \<noteq> 0"
        using False same by (cases "address m = address mo") (auto simp: bound')
      from l r old show ?thesis by simp
    qed
  qed
qed

lemma getWriteable_maps:
  assumes "getWriteable h as mo os = Inr (h', as', os')"
  shows "objects as' = objects as \<or> objects as' = pm_replace address (mo, os') (objects as)"
    and "segmentMap as' = segmentMap as"
  using assms by (auto simp: getWriteable_def Let_def split: if_splits)

lemma getWriteable_wf_maps:
  assumes "wf_maps as" and "getWriteable h as mo os = Inr (h', as', os')"
  shows "wf_maps as'"
  using assms(1) getWriteable_maps [OF assms(2)]
  by (auto simp: wf_maps_def pm_sorted_replace)

lemma getWriteable_segment_sync:
  assumes sync: "segment_sync as" and pre: "is_bound as mo"
    and gw: "getWriteable h as mo os = Inr (h', as', os')"
  shows "segment_sync as'"
proof -
  have bound': "is_bound as' m \<longleftrightarrow> is_bound as m" for m
  proof (cases "address m = address mo")
    case True
    then have "pm_lookup address m (objects as) = pm_lookup address mo (objects as)"
      by (rule pm_lookup_key_cong)
    with True pre getWriteable_maps(1) [OF gw] show ?thesis
      by (auto simp: is_bound_def pm_lookup_replace split: option.splits)
  next
    case False
    with getWriteable_maps(1) [OF gw] show ?thesis
      by (auto simp: is_bound_def pm_lookup_replace)
  qed
  have "segmentMap_at as' s = segmentMap_at as s" for s
    using getWriteable_maps(2) [OF gw] by (simp add: segmentMap_at_def)
  with sync bound' show ?thesis by (simp add: segment_sync_def)
qed

lemma apply_operation_segment_sync:
  assumes "wf_maps as \<and> segment_sync as" and "sync_pre as x"
    and "apply_operation (h, as) x = Inr (h', as')"
  shows "wf_maps as' \<and> segment_sync as'"
proof (cases x)
  case (BindObject mo os)
  with assms show ?thesis
    using bindObject_wf_maps bindObject_segment_sync by auto
next
  case (UnbindObject mo)
  with assms show ?thesis
    using unbindObject_wf_maps unbindObject_segment_sync by auto
next
  case (GetWriteable mo os)
  with assms obtain os' where "getWriteable h as mo os = Inr (h', as', os')"
    by (auto split: sum.splits)
  with assms GetWriteable show ?thesis
    using getWriteable_wf_maps getWriteable_segment_sync by auto
qed

text \<open>
  C6 (as amended): the invariant "for every segment \<open>s\<close> and object \<open>mo\<close>,
  \<open>segmentMap[s] == mo\<close> iff \<open>mo\<close> is a key of \<open>objects\<close>, \<open>mo.segment == s\<close> and \<open>s \<noteq> 0\<close>"
  is preserved by every sequence of bindObject, unbindObject and getWriteable, when each
  bindObject is given an object whose address and whose non-zero segment no other bound
  object has, and each unbindObject and getWriteable is given a bound object.
\<close>

theorem segment_sync_run_operations:
  assumes "wf_maps as \<and> segment_sync as"
    and "pre_holds sync_pre (h, as) xs"
    and "run_operations (h, as) xs = Inr (h', as')"
  shows "wf_maps as' \<and> segment_sync as'"
  using assms
proof (induction xs arbitrary: h as)
  case Nil
  then show ?case by simp
next
  case (Cons x xs)
  from Cons.prems(3) obtain h1 as1 where
    step: "apply_operation (h, as) x = Inr (h1, as1)" and
    rest: "run_operations (h1, as1) xs = Inr (h', as')"
    by (auto split: sum.splits)
  from Cons.prems(2) step have pre: "sync_pre as x" and pres: "pre_holds sync_pre (h1, as1) xs"
    by simp_all
  from apply_operation_segment_sync [OF Cons.prems(1) pre step]
  have "wf_maps as1 \<and> segment_sync as1" .
  from Cons.IH [OF this pres rest] show ?case .
qed


theorem segment_sync_run_operations_witness:
  "(wf_maps (empty_space 9) \<and> segment_sync (empty_space 9))
   \<and> pre_holds sync_pre ([fresh_state, fresh_state, fresh_state\<lparr>copyOnWriteOwner := 7\<rparr>], empty_space 9)
        [BindObject obj_S 0, BindObject obj_A 1, GetWriteable obj_A 2, UnbindObject obj_A]
   \<and> run_operations ([fresh_state, fresh_state, fresh_state\<lparr>copyOnWriteOwner := 7\<rparr>], empty_space 9)
        [BindObject obj_S 0, BindObject obj_A 1, GetWriteable obj_A 2, UnbindObject obj_A]
      = Inr ([fresh_state\<lparr>copyOnWriteOwner := 9\<rparr>, fresh_state\<lparr>copyOnWriteOwner := 9\<rparr>,
              fresh_state\<lparr>copyOnWriteOwner := 7\<rparr>, fresh_state\<lparr>copyOnWriteOwner := 9\<rparr>],
             \<lparr>cowKey = 9, objects = [(obj_S, 0)], segmentMap = [(1, obj_S)]\<rparr>)
   \<and> wf_maps \<lparr>cowKey = 9, objects = [(obj_S, 0)], segmentMap = [(1, obj_S)]\<rparr>
   \<and> segment_sync \<lparr>cowKey = 9, objects = [(obj_S, 0)], segmentMap = [(1, obj_S)]\<rparr>"
proof -
  have start: "wf_maps (empty_space 9) \<and> segment_sync (empty_space 9)"
    by (simp add: wf_maps_def pm_sorted_def segment_sync_def segmentMap_at_def is_bound_def
        empty_space_def)
  have pre: "pre_holds sync_pre ([fresh_state, fresh_state, fresh_state\<lparr>copyOnWriteOwner := 7\<rparr>], empty_space 9)
        [BindObject obj_S 0, BindObject obj_A 1, GetWriteable obj_A 2, UnbindObject obj_A]"
    by (simp add: bindObject_def getWriteable_def unbindObject_def empty_space_def
        fresh_state_def obj_A_def obj_S_def is_bound_def Let_def)
  have runs: "run_operations ([fresh_state, fresh_state, fresh_state\<lparr>copyOnWriteOwner := 7\<rparr>], empty_space 9)
        [BindObject obj_S 0, BindObject obj_A 1, GetWriteable obj_A 2, UnbindObject obj_A]
      = Inr ([fresh_state\<lparr>copyOnWriteOwner := 9\<rparr>, fresh_state\<lparr>copyOnWriteOwner := 9\<rparr>,
              fresh_state\<lparr>copyOnWriteOwner := 7\<rparr>, fresh_state\<lparr>copyOnWriteOwner := 9\<rparr>],
             \<lparr>cowKey = 9, objects = [(obj_S, 0)], segmentMap = [(1, obj_S)]\<rparr>)"
    by (simp add: bindObject_def getWriteable_def unbindObject_def empty_space_def
        fresh_state_def obj_A_def obj_S_def Let_def)
  from segment_sync_run_operations [OF start pre runs] start pre runs show ?thesis by simp
qed

text \<open>
  The invariant as the specification words it (with segment 0 included, and with no
  condition on unbindObject) is not preserved: binding a flat object leaves
  \<open>segmentMap[0]\<close> empty, and unbinding an object that is not bound removes the segment
  entry of the bound object with the same segment.
\<close>

theorem segment_sync_stated_counterexample:
  "segment_sync_stated (empty_space 9)
   \<and> pre_holds stated_pre ([fresh_state], empty_space 9) [BindObject obj_A 0]
   \<and> run_operations ([fresh_state], empty_space 9) [BindObject obj_A 0]
       = Inr ([fresh_state\<lparr>copyOnWriteOwner := 9\<rparr>],
              \<lparr>cowKey = 9, objects = [(obj_A, 0)], segmentMap = []\<rparr>)
   \<and> \<not> segment_sync_stated \<lparr>cowKey = 9, objects = [(obj_A, 0)], segmentMap = []\<rparr>
   \<and> segment_sync_stated \<lparr>cowKey = 9, objects = [(obj_S, 0)], segmentMap = [(1, obj_S)]\<rparr>
   \<and> pre_holds stated_pre ([fresh_state], \<lparr>cowKey = 9, objects = [(obj_S, 0)], segmentMap = [(1, obj_S)]\<rparr>)
         [UnbindObject obj_T]
   \<and> run_operations ([fresh_state], \<lparr>cowKey = 9, objects = [(obj_S, 0)], segmentMap = [(1, obj_S)]\<rparr>)
         [UnbindObject obj_T]
       = Inr ([fresh_state], \<lparr>cowKey = 9, objects = [(obj_S, 0)], segmentMap = []\<rparr>)
   \<and> \<not> segment_sync_stated \<lparr>cowKey = 9, objects = [(obj_S, 0)], segmentMap = []\<rparr>"
proof -
  have 1: "segment_sync_stated (empty_space 9)"
    by (simp add: segment_sync_stated_def segmentMap_at_def is_bound_def empty_space_def)
  have 2: "pre_holds stated_pre ([fresh_state], empty_space 9) [BindObject obj_A 0]"
    by (simp add: empty_space_def bindObject_def fresh_state_def Let_def)
  have 3: "run_operations ([fresh_state], empty_space 9) [BindObject obj_A 0]
       = Inr ([fresh_state\<lparr>copyOnWriteOwner := 9\<rparr>],
              \<lparr>cowKey = 9, objects = [(obj_A, 0)], segmentMap = []\<rparr>)"
    by (simp add: empty_space_def bindObject_def fresh_state_def obj_A_def Let_def)
  have "is_bound \<lparr>cowKey = 9, objects = [(obj_A, 0)], segmentMap = []\<rparr> obj_A \<and> segment obj_A = 0"
    by (simp add: is_bound_def obj_A_def)
  moreover have "segmentMap_at \<lparr>cowKey = 9, objects = [(obj_A, 0)], segmentMap = []\<rparr> 0 \<noteq> Some obj_A"
    by (simp add: segmentMap_at_def)
  ultimately have 4: "\<not> segment_sync_stated \<lparr>cowKey = 9, objects = [(obj_A, 0)], segmentMap = []\<rparr>"
    unfolding segment_sync_stated_def by blast
  have 5: "segment_sync_stated \<lparr>cowKey = 9, objects = [(obj_S, 0)], segmentMap = [(1, obj_S)]\<rparr>"
    by (auto simp: segment_sync_stated_def segmentMap_at_def is_bound_def obj_S_def)
  have 6: "pre_holds stated_pre ([fresh_state], \<lparr>cowKey = 9, objects = [(obj_S, 0)], segmentMap = [(1, obj_S)]\<rparr>)
         [UnbindObject obj_T]"
    by simp
  have 7: "run_operations ([fresh_state], \<lparr>cowKey = 9, objects = [(obj_S, 0)], segmentMap = [(1, obj_S)]\<rparr>)
         [UnbindObject obj_T]
       = Inr ([fresh_state], \<lparr>cowKey = 9, objects = [(obj_S, 0)], segmentMap = []\<rparr>)"
    by (simp add: unbindObject_def obj_S_def obj_T_def Let_def)
  have "is_bound \<lparr>cowKey = 9, objects = [(obj_S, 0)], segmentMap = []\<rparr> obj_S \<and> segment obj_S = 1"
    by (simp add: is_bound_def obj_S_def)
  moreover have "segmentMap_at \<lparr>cowKey = 9, objects = [(obj_S, 0)], segmentMap = []\<rparr> 1 \<noteq> Some obj_S"
    by (simp add: segmentMap_at_def)
  ultimately have 8: "\<not> segment_sync_stated \<lparr>cowKey = 9, objects = [(obj_S, 0)], segmentMap = []\<rparr>"
    unfolding segment_sync_stated_def by blast
  from 1 2 3 4 5 6 7 8 show ?thesis by blast
qed



section \<open>The constant-address resolver on flat pointers\<close>

text \<open>
  On a map in key order \<open>lookup_previous\<close> is the floor: the entry with the greatest key not
  above the probe.  For a constant pointer with segment 0, resolveConstantAddress returns
  the floor object of the address exactly when that object has a constant size and the
  address passes the test against the size cut to 32 bits; for sizes below \<open>2^32\<close> this is
  the test of the specification.
\<close>

lemma pm_lookup_previous_None:
  assumes "pm_sorted key m"
  shows "pm_lookup_previous key k m = None \<longleftrightarrow> (\<forall>e \<in> set m. key k < key (fst e))"
proof (cases m)
  case Nil
  then show ?thesis by simp
next
  case (Cons x xs)
  with assms have "\<forall>y \<in> set xs. key (fst x) < key (fst y)" by (simp add: pm_sorted_def)
  with Cons show ?thesis by (auto split: option.splits)
qed

lemma pm_lookup_previous_Some:
  assumes "pm_sorted key m" and "pm_lookup_previous key k m = Some e"
  shows "e \<in> set m \<and> key (fst e) \<le> key k
         \<and> (\<forall>e' \<in> set m. key (fst e') \<le> key k \<longrightarrow> key (fst e') \<le> key (fst e))"
  using assms
proof (induction m arbitrary: e)
  case Nil
  then show ?case by simp
next
  case (Cons x xs)
  from Cons.prems(1) have sorted: "pm_sorted key xs"
    and above: "\<forall>y \<in> set xs. key (fst x) < key (fst y)"
    by (simp_all add: pm_sorted_def)
  from Cons.prems(2) have le: "key (fst x) \<le> key k" by (auto split: if_splits)
  show ?case
  proof (cases "pm_lookup_previous key k xs")
    case None
    with Cons.prems(2) le have e: "e = x" by (auto split: if_splits)
    from None pm_lookup_previous_None [OF sorted, of k]
    have "\<forall>y \<in> set xs. key k < key (fst y)" by simp
    with e le show ?thesis by auto
  next
    case (Some f)
    with Cons.prems(2) le have e: "e = f" by (auto split: if_splits)
    from Cons.IH [OF sorted Some]
    have f: "f \<in> set xs" "key (fst f) \<le> key k"
      "\<forall>e' \<in> set xs. key (fst e') \<le> key k \<longrightarrow> key (fst e') \<le> key (fst f)"
      by simp_all
    from above f(1) have "key (fst x) \<le> key (fst f)" by auto
    with e f show ?thesis by auto
  qed
qed

lemma pm_lookup_previous_floor:
  assumes sorted: "pm_sorted key m"
  shows "pm_lookup_previous key k m = Some e \<longleftrightarrow>
         e \<in> set m \<and> key (fst e) \<le> key k
         \<and> (\<forall>e' \<in> set m. key (fst e') \<le> key k \<longrightarrow> key (fst e') \<le> key (fst e))"
proof
  assume "pm_lookup_previous key k m = Some e"
  from pm_lookup_previous_Some [OF sorted this]
  show "e \<in> set m \<and> key (fst e) \<le> key k
         \<and> (\<forall>e' \<in> set m. key (fst e') \<le> key k \<longrightarrow> key (fst e') \<le> key (fst e))" .
next
  assume floor: "e \<in> set m \<and> key (fst e) \<le> key k
         \<and> (\<forall>e' \<in> set m. key (fst e') \<le> key k \<longrightarrow> key (fst e') \<le> key (fst e))"
  then have "\<not> (\<forall>y \<in> set m. key k < key (fst y))"
    by (meson leD)
  with pm_lookup_previous_None [OF sorted, of k] obtain f where
    f: "pm_lookup_previous key k m = Some f" by auto
  from pm_lookup_previous_Some [OF sorted f] floor
  have "f \<in> set m" and "key (fst f) = key (fst e)" by (auto intro: antisym)
  with pm_sorted_key_inj [OF sorted, of f e] floor f
  show "pm_lookup_previous key k m = Some e" by simp
qed

lemma ucast_down_up_small:
  assumes "ce < 2 ^ 32"
  shows "(ucast (ucast ce :: u32) :: u64) = ce" and "(ucast ce :: u32) = 0 \<longleftrightarrow> ce = 0"
proof -
  from assms have small: "unat ce < 2 ^ 32" by (simp add: word_less_nat_alt)
  have "unat (ucast (ucast ce :: u32) :: u64) = take_bit 32 (unat ce)"
    by (simp add: unsigned_ucast_eq unsigned_take_bit_eq)
  with small have "unat (ucast (ucast ce :: u32) :: u64) = unat ce"
    by (simp add: take_bit_nat_eq_self)
  then show up: "(ucast (ucast ce :: u32) :: u64) = ce" by (rule word_unat_eq_iff [THEN iffD2])
  show "(ucast ce :: u32) = 0 \<longleftrightarrow> ce = 0"
  proof
    assume "(ucast ce :: u32) = 0"
    then have "(ucast (ucast ce :: u32) :: u64) = 0" by simp
    with up show "ce = 0" by simp
  qed simp
qed

lemma resolveConstantAddress_flat_iff:
  assumes sorted: "pm_sorted address (objects as)"
  shows "resolveConstantAddress as \<lparr>getSegment = ConstantExpr 0, getOffset = ConstantExpr a\<rparr>
           = Inr (Some res)
         \<longleftrightarrow>
         (res \<in> set (objects as) \<and> address (fst res) \<le> a
            \<and> (\<forall>e \<in> set (objects as). address (fst e) \<le> a \<longrightarrow> address (fst e) \<le> address (fst res)))
         \<and> (\<exists>ce. size_expr (fst res) = ConstantExpr ce
               \<and> (((ucast ce :: u32) = 0 \<and> a = address (fst res))
                    \<or> a - address (fst res) < ucast (ucast ce :: u32)))"
proof -
  have floor: "pm_lookup_previous address (hack a) (objects as) = Some res \<longleftrightarrow>
      res \<in> set (objects as) \<and> address (fst res) \<le> a
      \<and> (\<forall>e \<in> set (objects as). address (fst e) \<le> a \<longrightarrow> address (fst e) \<le> address (fst res))"
    using pm_lookup_previous_floor [OF sorted, of "hack a" res] by (simp add: hack_def)
  have "resolveConstantAddress as \<lparr>getSegment = ConstantExpr 0, getOffset = ConstantExpr a\<rparr>
           = Inr (Some res)
     \<longleftrightarrow> pm_lookup_previous address (hack a) (objects as) = Some res
         \<and> (\<exists>ce. size_expr (fst res) = ConstantExpr ce
               \<and> (((ucast ce :: u32) = 0 \<and> a = address (fst res))
                    \<or> a - address (fst res) < ucast (ucast ce :: u32)))"
    by (auto simp: resolveConstantAddress_def Let_def split: option.splits Expr.splits)
  with floor show ?thesis by simp
qed

lemma resolveConstantAddress_flat_small_sizes:
  assumes sorted: "pm_sorted address (objects as)"
    and small: "\<forall>e \<in> set (objects as). \<forall>ce. size_expr (fst e) = ConstantExpr ce \<longrightarrow> ce < 2 ^ 32"
  shows "resolveConstantAddress as \<lparr>getSegment = ConstantExpr 0, getOffset = ConstantExpr a\<rparr>
           = Inr (Some res)
         \<longleftrightarrow>
         (res \<in> set (objects as) \<and> address (fst res) \<le> a
            \<and> (\<forall>e \<in> set (objects as). address (fst e) \<le> a \<longrightarrow> address (fst e) \<le> address (fst res)))
         \<and> (\<exists>ce. size_expr (fst res) = ConstantExpr ce
               \<and> ((ce = 0 \<and> a = address (fst res)) \<or> a - address (fst res) < ce))"
proof (cases "res \<in> set (objects as)")
  case True
  with small have sm: "\<And>ce. size_expr (fst res) = ConstantExpr ce \<Longrightarrow> ce < 2 ^ 32" by blast
  have "(\<exists>ce. size_expr (fst res) = ConstantExpr ce
               \<and> (((ucast ce :: u32) = 0 \<and> a = address (fst res))
                    \<or> a - address (fst res) < ucast (ucast ce :: u32)))
      \<longleftrightarrow> (\<exists>ce. size_expr (fst res) = ConstantExpr ce
               \<and> ((ce = 0 \<and> a = address (fst res)) \<or> a - address (fst res) < ce))"
  proof (cases "size_expr (fst res)")
    case (ConstantExpr ce)
    from sm [OF this] have "(ucast (ucast ce :: u32) :: u64) = ce" "(ucast ce :: u32) = 0 \<longleftrightarrow> ce = 0"
      by (rule ucast_down_up_small)+
    with ConstantExpr show ?thesis by simp
  next
    case (SymbolicExpr n)
    then show ?thesis by simp
  qed
  with resolveConstantAddress_flat_iff [OF sorted, of a res] show ?thesis by simp
next
  case False
  with resolveConstantAddress_flat_iff [OF sorted, of a res] show ?thesis by simp
qed

lemma resolveConstantAddress_flat_returns:
  "\<exists>r. resolveConstantAddress as \<lparr>getSegment = ConstantExpr 0, getOffset = ConstantExpr a\<rparr> = Inr r"
  by (simp add: resolveConstantAddress_def Let_def split: option.splits Expr.splits)

section \<open>What resolveOne returns when no solver call fails\<close>

text \<open>
  On every path where the segment is zero, resolveOne with a solver that never fails
  returns \<open>true\<close>, and either commits (\<open>result\<close> set, \<open>success\<close> true) or leaves \<open>result\<close> as
  it was and sets \<open>success\<close> to false.
\<close>

lemma never_fails_answers:
  assumes "never_fails solver"
  shows "\<exists>v. getValue solver e = Some v" and "\<exists>b. mayBeTrue solver q = Some b"
    and "\<exists>b. mustBeTrue solver q = Some b"
  using assms by (auto simp: never_fails_def)

lemma resolveOne_backward_never_fails:
  assumes "never_fails solver"
  shows "resolveOne_backward solver pointer xs \<noteq> SolverFailed"
proof (induction xs)
  case Nil
  then show ?case by simp
next
  case (Cons oi rest)
  from never_fails_answers(2,3) [OF assms] obtain b b' where
    "mayBeTrue solver (BoundsCheckPointer (fst oi) pointer) = Some b"
    "mustBeTrue solver (UgeExpr (getOffset pointer) (getBaseExpr (fst oi))) = Some b'"
    by blast
  with Cons show ?case by (cases b; cases b') simp_all
qed

lemma resolveOne_forward_never_fails:
  assumes "never_fails solver"
  shows "resolveOne_forward solver pointer xs \<noteq> SolverFailed"
proof (induction xs)
  case Nil
  then show ?case by simp
next
  case (Cons oi rest)
  from never_fails_answers(2,3) [OF assms] obtain b b' where
    "mayBeTrue solver (BoundsCheckPointer (fst oi) pointer) = Some b"
    "mustBeTrue solver (UltExpr (getOffset pointer) (getBaseExpr (fst oi))) = Some b'"
    by blast
  with Cons show ?case by (cases b; cases b') simp_all
qed

lemma resolveOne_flat_no_failure:
  assumes total: "never_fails solver" and flat: "concrete_segment solver pointer = Some 0"
  shows "(\<exists>c. resolveOne as solver pointer result success = Inr (True, Some c, True))
         \<or> resolveOne as solver pointer result success = Inr (True, result, False)"
proof (cases "isConstant pointer")
  case True
  then obtain s a where p: "pointer = \<lparr>getSegment = ConstantExpr s, getOffset = ConstantExpr a\<rparr>"
    by (cases pointer; cases "getSegment pointer"; cases "getOffset pointer")
       (auto simp: isConstant_def)
  with flat have "s = 0" by (simp add: concrete_segment_def)
  with p True resolveConstantAddress_flat_returns [of as a] show ?thesis
    by (auto simp: resolveOne_def split: option.splits)
next
  case False
  from never_fails_answers(1) [OF total] obtain example where
    ex: "getValue solver (getOffset pointer) = Some example"
    by blast
  from False flat ex resolveOne_backward_never_fails [OF total] resolveOne_forward_never_fails [OF total]
  show ?thesis
    by (auto simp: resolveOne_def split: option.splits search.splits)
qed

section \<open>The resolver at the scenario inputs\<close>

lemma never_fails_model_solver: "ms \<noteq> [] \<Longrightarrow> never_fails (model_solver ms)"
  by (cases ms) (simp_all add: never_fails_def model_solver_def)

lemmas resolve_eval = resolve_def resolveConstantSegment_def resolveConstantAddress_def
  checkPointerInObject_def pm_upper_bound_def timed_out_def model_solver_def in_bounds_def
  getBaseExpr_def hack_def Let_def

text \<open>
  C3 at an object of 4 GiB: the floor object of address 0x1004 is the object at 0x1000
  whose size is the constant \<open>2^32\<close>, and \<open>0x1004 - 0x1000 < 2^32\<close>; resolveConstantAddress
  compares with the size cut to 32 bits (0 here) and finds nothing, while the cheap
  search of resolveOne, which compares 64 bits, finds the object.
\<close>

theorem resolveConstantAddress_truncates_size:
  "resolveConstantAddress as_G \<lparr>getSegment = ConstantExpr 0, getOffset = ConstantExpr 0x1004\<rparr> = Inr None
   \<and> pm_lookup_previous address (hack 0x1004) (objects as_G) = Some (obj_G, 0)
   \<and> size_expr obj_G = ConstantExpr 0x100000000
   \<and> (0x1004 :: u64) - address obj_G < 0x100000000
   \<and> cheap_search as_G 0x1004 = Some (obj_G, 0)"
  by (simp add: resolveConstantAddress_def cheap_search_def as_G_def obj_G_def hack_def)


text \<open>
  C1 on the path of a non-zero segment: with a solver none of whose calls fails,
  resolveOne returns \<open>false\<close> when the segment is not in the segment map, and when it is
  there it returns \<open>true\<close> with \<open>result\<close> set and \<open>success\<close> as the caller left it.
\<close>

theorem resolveOne_nonzero_segment_not_found:
  "never_fails (model_solver [\<lambda>n. 0x1004])
   \<and> resolveOne as_AB (model_solver [\<lambda>n. 0x1004])
        \<lparr>getSegment = ConstantExpr 5, getOffset = SymbolicExpr 0\<rparr> None True
      = Inr (False, None, True)
   \<and> resolveOne as_S (model_solver [\<lambda>n. 4])
        \<lparr>getSegment = ConstantExpr 1, getOffset = SymbolicExpr 0\<rparr> None False
      = Inr (True, Some (obj_S, 0), False)"
  by (simp add: never_fails_model_solver resolveOne_def resolveConstantAddress_def isConstant_def
      concrete_segment_def as_AB_def as_S_def obj_S_def)

section \<open>The resolution cap\<close>

lemma answers_for_model_solver: "answers_for (model_solver ms) (set ms)"
  by (cases ms) (auto simp: answers_for_def model_solver_def list_ex_iff list_all_iff)

lemma pm_lookup_member: "e \<in> set m \<Longrightarrow> pm_lookup key (fst e) m \<noteq> None"
  by (induction m) auto

lemma resolve_segments_appends_all:
  assumes "\<forall>res \<in> set segs.
             mayBeTrue solver (EqExpr (getSegment pointer) (ConstantExpr (fst res))) = Some True
             \<and> pm_lookup address (snd res) (objects as) \<noteq> None"
  shows "\<exists>rl'. resolve_segments as solver 0 delta pointer segs rl k = Inr (False, rl')
               \<and> length rl' = length rl + length segs"
  using assms
proof (induction segs arbitrary: rl k)
  case Nil
  then show ?case by simp
next
  case (Cons res rest)
  from Cons.prems obtain pair where
    may: "mayBeTrue solver (EqExpr (getSegment pointer) (ConstantExpr (fst res))) = Some True"
    and look: "pm_lookup address (snd res) (objects as) = Some pair"
    by auto
  from Cons.prems have "\<forall>res \<in> set rest.
             mayBeTrue solver (EqExpr (getSegment pointer) (ConstantExpr (fst res))) = Some True
             \<and> pm_lookup address (snd res) (objects as) \<noteq> None"
    by simp
  from Cons.IH [OF this, of "rl @ [pair]" "Suc k"] may look
  show ?case by (auto simp: timed_out_def)
qed

lemma of_nat_u64_less:
  assumes "i < j" and "j < 2 ^ 64"
  shows "(of_nat i :: u64) < of_nat j"
  using assms by (simp add: word_of_nat_less_iff take_bit_nat_eq_self)

lemma of_nat_u64_nonzero:
  assumes "0 < i" and "i < 2 ^ 64"
  shows "(of_nat i :: u64) \<noteq> 0"
  using of_nat_u64_less [of 0 i] assms by auto

lemma sorted_of_nat_upt:
  assumes "n < 2 ^ 64"
  shows "sorted_wrt (\<lambda>i j. (of_nat (Suc i) :: u64) < of_nat (Suc j)) [0..<n]"
proof -
  have "sorted_wrt (<) [0..<n]" by (rule sorted_wrt_upt)
  then show ?thesis
  proof (rule sorted_wrt_mono_rel [rotated])
    fix i j
    assume "i \<in> set [0..<n]" "j \<in> set [0..<n]" "i < j"
    with assms show "(of_nat (Suc i) :: u64) < of_nat (Suc j)"
      by (intro of_nat_u64_less) auto
  qed
qed

lemma wf_maps_many_segments:
  assumes "n < 2 ^ 64"
  shows "wf_maps (many_segments n)"
  using sorted_of_nat_upt [OF assms]
  by (simp add: wf_maps_def pm_sorted_def many_segments_def sorted_wrt_map seg_obj_def)


lemma never_fails_segment_models: "0 < n \<Longrightarrow> never_fails (model_solver (segment_models n))"
  by (rule never_fails_model_solver) (simp add: segment_models_def)

lemma segment_models_not_zero:
  assumes "n < 2 ^ 64"
  shows "mayBeTrue (model_solver (segment_models n)) (IsZero (getSegment symbolic_segment)) = Some False"
proof -
  have "(of_nat (Suc i) :: u64) \<noteq> 0" if "i \<in> set [0..<n]" for i
    using that assms by (intro of_nat_u64_nonzero) auto
  then have "\<not> list_ex (\<lambda>\<sigma>. \<sigma> 0 = 0) (segment_models n)"
    by (auto simp: segment_models_def list_ex_iff)
  then show ?thesis
    by (simp add: model_solver_def symbolic_segment_def)
qed

lemma segment_models_may_be_any:
  assumes "res \<in> set (segmentMap (many_segments n))"
  shows "mayBeTrue (model_solver (segment_models n))
           (EqExpr (getSegment symbolic_segment) (ConstantExpr (fst res))) = Some True
         \<and> pm_lookup address (snd res) (objects (many_segments n)) \<noteq> None"
proof -
  from assms obtain i where i: "i \<in> set [0..<n]" and res: "res = (of_nat (Suc i), seg_obj (Suc i))"
    by (auto simp: many_segments_def)
  have "(seg_obj (Suc i), i) \<in> set (objects (many_segments n))"
    using i by (auto simp: many_segments_def)
  from pm_lookup_member [OF this, of address]
  have "pm_lookup address (snd res) (objects (many_segments n)) \<noteq> None"
    by (simp add: res)
  moreover have "list_ex (\<lambda>\<sigma>. \<sigma> 0 = (of_nat (Suc i) :: u64)) (segment_models n)"
    using i by (auto simp: list_ex_iff segment_models_def)
  then have "mayBeTrue (model_solver (segment_models n))
           (EqExpr (getSegment symbolic_segment) (ConstantExpr (fst res))) = Some True"
    by (simp add: model_solver_def symbolic_segment_def res)
  ultimately show ?thesis by simp
qed

lemma resolve_many_segments:
  assumes "n < 2 ^ 64"
  shows "\<exists>rl. resolve (many_segments n) (model_solver (segment_models n)) symbolic_segment []
                 maxResolutions 0 delta = Inr (False, rl)
              \<and> length rl = n"
proof -
  from resolve_segments_appends_all [of "segmentMap (many_segments n)"
      "model_solver (segment_models n)" symbolic_segment "many_segments n" delta "[]" 0]
    segment_models_may_be_any [of _ n]
  obtain rl where "resolve_segments (many_segments n) (model_solver (segment_models n)) 0 delta
       symbolic_segment (segmentMap (many_segments n)) [] 0 = Inr (False, rl)"
    and "length rl = length (segmentMap (many_segments n))"
    by auto
  moreover have "length (segmentMap (many_segments n)) = n"
    by (simp add: many_segments_def)
  moreover have "\<not> isConstantExpr (getSegment symbolic_segment)"
    by (simp add: symbolic_segment_def)
  ultimately show ?thesis
    using segment_models_not_zero [OF assms] by (simp add: resolve_def)
qed

lemma segment_sync_many_segments:
  assumes "n < 2 ^ 64"
  shows "segment_sync (many_segments n)"
proof -
  let ?as = "many_segments n"
  from wf_maps_many_segments [OF assms]
  have so: "pm_sorted address (objects ?as)" and ss: "pm_sorted id (segmentMap ?as)"
    by (simp_all add: wf_maps_def)
  have nz: "(of_nat (Suc i) :: u64) \<noteq> 0" if "i < n" for i
    using that assms by (intro of_nat_u64_nonzero) auto
  have at: "segmentMap_at ?as s = Some mo \<longleftrightarrow> (\<exists>i<n. s = of_nat (Suc i) \<and> mo = seg_obj (Suc i))"
    for s mo
  proof -
    have "segmentMap_at ?as s = Some mo \<longleftrightarrow> pm_lookup id s (segmentMap ?as) = Some (s, mo)"
      using pm_lookup_Some [of id s "segmentMap ?as"]
      by (cases "pm_lookup id s (segmentMap ?as)") (auto simp: segmentMap_at_def)
    also have "\<dots> \<longleftrightarrow> (s, mo) \<in> set (segmentMap ?as)"
      using pm_lookup_sorted_iff [OF ss, of s "(s, mo)"] by simp
    also have "\<dots> \<longleftrightarrow> (\<exists>i<n. s = of_nat (Suc i) \<and> mo = seg_obj (Suc i))"
      by (auto simp: many_segments_def)
    finally show ?thesis .
  qed
  have bound: "is_bound ?as mo \<longleftrightarrow> (\<exists>i<n. mo = seg_obj (Suc i))" for mo
    unfolding is_bound_iff [OF so] by (auto simp: many_segments_def image_iff)
  show ?thesis
    unfolding segment_sync_def at bound
    using nz by (auto simp: seg_obj_def)
qed

lemma exceeds_cap_exists:
  assumes "maxResolutions \<noteq> 0"
  shows "\<exists>as solver pointer rl.
           wf_maps as \<and> segment_sync as \<and> never_fails solver \<and> (\<exists>M. answers_for solver M)
           \<and> \<not> isConstantExpr (getSegment pointer)
           \<and> resolve as solver pointer [] maxResolutions 0 delta = Inr (False, rl)
           \<and> unat maxResolutions < length rl"
proof -
  let ?n = "Suc (unat maxResolutions)"
  have "unat maxResolutions < 2 ^ 32"
    using unsigned_less [of maxResolutions] by simp
  then have n: "?n < 2 ^ 64" by simp
  from resolve_many_segments [OF n, of maxResolutions delta]
  obtain rl where "resolve (many_segments ?n) (model_solver (segment_models ?n)) symbolic_segment []
                 maxResolutions 0 delta = Inr (False, rl)" and "length rl = ?n"
    by blast
  moreover have "wf_maps (many_segments ?n)" by (rule wf_maps_many_segments [OF n])
  moreover have "segment_sync (many_segments ?n)" by (rule segment_sync_many_segments [OF n])
  moreover have "never_fails (model_solver (segment_models ?n))"
    by (rule never_fails_segment_models) simp
  moreover have "\<exists>M. answers_for (model_solver (segment_models ?n)) M"
    using answers_for_model_solver by blast
  moreover have "\<not> isConstantExpr (getSegment symbolic_segment)"
    by (simp add: symbolic_segment_def)
  ultimately show ?thesis by (intro exI [of _ "many_segments ?n"] exI [of _ "model_solver (segment_models ?n)"]
      exI [of _ symbolic_segment] exI [of _ rl]) simp
qed





section \<open>Committed objects and the bounds check\<close>

lemma answers_for_may:
  "answers_for solver M \<Longrightarrow> mayBeTrue solver q = Some True \<Longrightarrow> \<exists>\<sigma> \<in> M. holds \<sigma> q"
  by (auto simp: answers_for_def)

lemma answers_for_may_not:
  "answers_for solver M \<Longrightarrow> mayBeTrue solver q = Some False \<Longrightarrow> \<forall>\<sigma> \<in> M. \<not> holds \<sigma> q"
  unfolding answers_for_def by blast

lemma answers_for_must:
  "answers_for solver M \<Longrightarrow> mustBeTrue solver q = Some True \<Longrightarrow> \<forall>\<sigma> \<in> M. holds \<sigma> q"
  unfolding answers_for_def by blast

lemma answers_for_value:
  "answers_for solver M \<Longrightarrow> getValue solver e = Some v \<Longrightarrow> \<exists>\<sigma> \<in> M. eval \<sigma> e = v"
  by (auto simp: answers_for_def)

lemma resolveOne_backward_Found:
  "resolveOne_backward solver pointer xs = Found r \<Longrightarrow>
   r \<in> set xs \<and> mayBeTrue solver (BoundsCheckPointer (fst r) pointer) = Some True"
  by (induction xs) (auto split: option.splits bool.splits)

lemma resolveOne_forward_Found:
  "resolveOne_forward solver pointer xs = Found r \<Longrightarrow>
   r \<in> set xs \<and> mayBeTrue solver (BoundsCheckPointer (fst r) pointer) = Some True"
  by (induction xs) (auto split: option.splits bool.splits)

lemma ucast_down_up_le: "(ucast (ucast ce :: u32) :: u64) \<le> ce"
proof -
  have "unat (ucast (ucast ce :: u32) :: u64) = take_bit 32 (unat ce)"
    by (simp add: unsigned_ucast_eq unsigned_take_bit_eq)
  also have "\<dots> \<le> unat ce" by (rule take_bit_nat_less_eq_self)
  finally show ?thesis by (simp add: word_le_nat_alt)
qed

lemma resolveConstantAddress_flat_in_bounds:
  assumes "resolveConstantAddress as \<lparr>getSegment = ConstantExpr 0, getOffset = ConstantExpr a\<rparr>
             = Inr (Some res)"
  shows "in_bounds \<sigma> (fst res) a"
proof -
  from assms obtain ce where size: "size_expr (fst res) = ConstantExpr ce"
    and test: "((ucast ce :: u32) = 0 \<and> a = address (fst res))
               \<or> a - address (fst res) < ucast (ucast ce :: u32)"
    by (auto simp: resolveConstantAddress_def Let_def split: option.splits Expr.splits if_splits)
  from test show ?thesis
  proof
    assume "(ucast ce :: u32) = 0 \<and> a = address (fst res)"
    then show ?thesis
      by (cases "ce = 0") (auto simp: in_bounds_def size word_gt_0)
  next
    assume "a - address (fst res) < ucast (ucast ce :: u32)"
    also have "\<dots> \<le> ce" by (rule ucast_down_up_le)
    finally show ?thesis by (simp add: in_bounds_def size)
  qed
qed

lemma cheap_search_in_bounds:
  assumes "cheap_search as example = Some res"
  shows "in_bounds \<sigma> (fst res) example"
  using assms
  by (auto simp: cheap_search_def in_bounds_def split: option.splits Expr.splits if_splits)


text \<open>
  C5 (as amended): when resolveOne commits to \<open>mo\<close> on a path where the segment, constant
  or concretised, is zero (the constant pointer, the cheap search, the walk in both
  directions), then \<open>mayBeTrue(bounds_check(mo, p))\<close> holds under the current, satisfiable,
  constraints.
\<close>

theorem resolveOne_flat_commit_in_bounds:
  assumes sound: "answers_for solver M" and sat: "M \<noteq> {}"
    and flat: "concrete_segment solver pointer = Some 0"
    and commit: "resolveOne as solver pointer result success = Inr (True, Some (mo, os), True)"
  shows "\<exists>\<sigma> \<in> M. holds \<sigma> (BoundsCheckPointer mo pointer)"
proof (cases "isConstant pointer")
  case True
  then obtain s a where p: "pointer = \<lparr>getSegment = ConstantExpr s, getOffset = ConstantExpr a\<rparr>"
    by (cases pointer; cases "getSegment pointer"; cases "getOffset pointer")
       (auto simp: isConstant_def)
  with flat have s: "s = 0" by (simp add: concrete_segment_def)
  from commit True p s
  have "resolveConstantAddress as \<lparr>getSegment = ConstantExpr 0, getOffset = ConstantExpr a\<rparr>
          = Inr (Some (mo, os))"
    by (auto simp: resolveOne_def split: sum.splits option.splits)
  from resolveConstantAddress_flat_in_bounds [OF this]
  have "in_bounds \<sigma> mo a" for \<sigma> by simp
  with sat p show ?thesis by auto
next
  case False
  show ?thesis
  proof (cases "getValue solver (getOffset pointer)")
    case None
    with commit False flat show ?thesis by (simp add: resolveOne_def)
  next
    case (Some example)
    from answers_for_value [OF sound Some]
    obtain \<sigma> where \<sigma>: "\<sigma> \<in> M" "eval \<sigma> (getOffset pointer) = example" by blast
    show ?thesis
    proof (cases "cheap_search as example")
      case (Some res)
      with commit False flat \<open>getValue solver (getOffset pointer) = Some example\<close>
      have "res = (mo, os)" by (simp add: resolveOne_def)
      with cheap_search_in_bounds [OF Some, of \<sigma>] \<sigma> show ?thesis by auto
    next
      case None
      let ?bwd = "resolveOne_backward solver pointer
                     (fst (pm_upper_bound address (hack example) (objects as)))"
      let ?fwd = "resolveOne_forward solver pointer
                     (snd (pm_upper_bound address (hack example) (objects as)))"
      from commit False flat None \<open>getValue solver (getOffset pointer) = Some example\<close>
      have "?bwd = Found (mo, os) \<or> ?fwd = Found (mo, os)"
        by (auto simp: resolveOne_def split: search.splits)
      then have "mayBeTrue solver (BoundsCheckPointer mo pointer) = Some True"
        using resolveOne_backward_Found resolveOne_forward_Found by fastforce
      from answers_for_may [OF sound this] show ?thesis .
    qed
  qed
qed


theorem resolveOne_flat_commit_in_bounds_witness:
  "answers_for (model_solver three_models) (set three_models)
   \<and> set three_models \<noteq> {}
   \<and> concrete_segment (model_solver three_models) flat_symbolic = Some 0
   \<and> resolveOne as_ABC (model_solver three_models) flat_symbolic None False
       = Inr (True, Some (obj_A, 0), True)
   \<and> (\<exists>\<sigma> \<in> set three_models. holds \<sigma> (BoundsCheckPointer obj_A flat_symbolic))"
proof -
  have sat: "set three_models \<noteq> {}" by (simp add: three_models_def)
  have flat: "concrete_segment (model_solver three_models) flat_symbolic = Some 0"
    by (simp add: concrete_segment_def flat_symbolic_def)
  have commit: "resolveOne as_ABC (model_solver three_models) flat_symbolic None False
       = Inr (True, Some (obj_A, 0), True)"
    by (simp add: resolveOne_def isConstant_def concrete_segment_def cheap_search_def
        model_solver_def three_models_def flat_symbolic_def as_ABC_def hack_def
        obj_A_def obj_B_def obj_C_def)
  from resolveOne_flat_commit_in_bounds [OF answers_for_model_solver sat flat commit]
    answers_for_model_solver sat flat commit
  show ?thesis by blast
qed

text \<open>
  On the path of a non-zero segment the object of the segment map is returned with no
  bounds check: the constant pointer (segment 1, offset 0x9000) commits to the 16-byte
  object of segment 1, which cannot contain it.
\<close>

theorem resolveOne_segment_commit_out_of_bounds:
  "answers_for (model_solver sized_16) (set sized_16)
   \<and> resolveOne as_S (model_solver sized_16)
        \<lparr>getSegment = ConstantExpr 1, getOffset = ConstantExpr 0x9000\<rparr> None False
       = Inr (True, Some (obj_S, 0), True)
   \<and> mayBeTrue (model_solver sized_16)
        (BoundsCheckPointer obj_S \<lparr>getSegment = ConstantExpr 1, getOffset = ConstantExpr 0x9000\<rparr>)
       = Some False
   \<and> \<not> (\<exists>\<sigma> \<in> set sized_16.
          holds \<sigma> (BoundsCheckPointer obj_S \<lparr>getSegment = ConstantExpr 1, getOffset = ConstantExpr 0x9000\<rparr>))"
proof -
  have "resolveOne as_S (model_solver sized_16)
        \<lparr>getSegment = ConstantExpr 1, getOffset = ConstantExpr 0x9000\<rparr> None False
       = Inr (True, Some (obj_S, 0), True)"
    by (simp add: resolveOne_def resolveConstantAddress_def isConstant_def as_S_def obj_S_def)
  moreover have "mayBeTrue (model_solver sized_16)
        (BoundsCheckPointer obj_S \<lparr>getSegment = ConstantExpr 1, getOffset = ConstantExpr 0x9000\<rparr>)
       = Some False"
    by (simp add: model_solver_def sized_16_def in_bounds_def obj_S_def)
  moreover have "\<not> (\<exists>\<sigma> \<in> set sized_16.
          holds \<sigma> (BoundsCheckPointer obj_S \<lparr>getSegment = ConstantExpr 1, getOffset = ConstantExpr 0x9000\<rparr>))"
    by (simp add: sized_16_def in_bounds_def obj_S_def)
  ultimately show ?thesis using answers_for_model_solver by blast
qed


section \<open>Soundness of the enumeration\<close>

lemma checkPointerInObject_result:
  assumes "checkPointerInObject solver pointer op rl maxResolutions = (c, rl')"
  shows "(rl' = rl \<and> c \<noteq> 0
            \<and> (c = 2 \<longrightarrow> mayBeTrue solver (BoundsCheckPointer (fst op) pointer) = Some False))
       \<or> (rl' = rl @ [op]
            \<and> mayBeTrue solver (BoundsCheckPointer (fst op) pointer) = Some True
            \<and> (c = 0 \<longrightarrow> rl = []
                  \<and> mustBeTrue solver (BoundsCheckPointer (fst op) pointer) = Some True))"
  using assms
  by (auto simp: checkPointerInObject_def Let_def split: option.splits bool.splits if_splits)

lemma resolve_backward_appended:
  assumes "resolve_backward solver timeout delta pointer maxResolutions ops rl k = (res, rl', k')"
    and "e \<in> set rl'"
  shows "e \<in> set rl
         \<or> (e \<in> set ops \<and> mayBeTrue solver (BoundsCheckPointer (fst e) pointer) = Some True)"
  using assms
proof (induction ops arbitrary: rl k)
  case Nil
  then show ?case by simp
next
  case (Cons oi rest)
  obtain c rl1 where chk: "checkPointerInObject solver pointer oi rl maxResolutions = (c, rl1)"
    by (cases "checkPointerInObject solver pointer oi rl maxResolutions")
  from checkPointerInObject_result [OF chk]
  have rl1: "x \<in> set rl1 \<Longrightarrow> x \<in> set rl \<or>
      (x = oi \<and> mayBeTrue solver (BoundsCheckPointer (fst oi) pointer) = Some True)" for x
    by auto
  show ?case
  proof (cases "resolve_backward solver timeout delta pointer maxResolutions rest rl1 (Suc k)
                  = (res, rl', k')")
    case True
    from Cons.IH [OF True Cons.prems(2)] rl1 [of e] show ?thesis by auto
  next
    case False
    with Cons.prems(1) chk have "rl' = rl \<or> rl' = rl1"
      by (auto split: if_splits option.splits bool.splits)
    with Cons.prems(2) rl1 [of e] show ?thesis by auto
  qed
qed

lemma resolve_forward_appended:
  assumes "resolve_forward solver timeout delta pointer maxResolutions ops rl k = (res, rl', k')"
    and "e \<in> set rl'"
  shows "e \<in> set rl
         \<or> (e \<in> set ops \<and> mayBeTrue solver (BoundsCheckPointer (fst e) pointer) = Some True)"
  using assms
proof (induction ops arbitrary: rl k)
  case Nil
  then show ?case by simp
next
  case (Cons oi rest)
  obtain c rl1 where chk: "checkPointerInObject solver pointer oi rl maxResolutions = (c, rl1)"
    by (cases "checkPointerInObject solver pointer oi rl maxResolutions")
  from checkPointerInObject_result [OF chk]
  have rl1: "x \<in> set rl1 \<Longrightarrow> x \<in> set rl \<or>
      (x = oi \<and> mayBeTrue solver (BoundsCheckPointer (fst oi) pointer) = Some True)" for x
    by auto
  show ?case
  proof (cases "resolve_forward solver timeout delta pointer maxResolutions rest rl1 (Suc k)
                  = (res, rl', k')")
    case True
    from Cons.IH [OF True Cons.prems(2)] rl1 [of e] show ?thesis by auto
  next
    case False
    with Cons.prems(1) chk have "rl' = rl \<or> rl' = rl1"
      by (auto split: if_splits option.splits bool.splits)
    with Cons.prems(2) rl1 [of e] show ?thesis by auto
  qed
qed


lemma resolve_backward_left:
  assumes sound: "answers_for solver M"
    and desc: "sorted_wrt (\<lambda>a b. address (fst b) < address (fst a)) ops"
    and below: "\<And>e e' \<sigma> a. e \<in> set ops \<Longrightarrow> e' \<in> set ops \<Longrightarrow> address (fst e) < address (fst e')
                  \<Longrightarrow> \<sigma> \<in> M \<Longrightarrow> in_bounds \<sigma> (fst e) a \<Longrightarrow> a < address (fst e')"
    and run: "resolve_backward solver timeout delta pointer maxResolutions ops rl k = (None, rl', k')"
  shows "set rl \<subseteq> set rl'
         \<and> (\<forall>e \<in> set ops. e \<in> set rl' \<or> (\<forall>\<sigma> \<in> M. \<not> holds \<sigma> (BoundsCheckPointer (fst e) pointer)))"
  using desc below run
proof (induction ops arbitrary: rl k)
  case Nil
  then show ?case by simp
next
  case (Cons oi rest)
  obtain c rl1 where chk: "checkPointerInObject solver pointer oi rl maxResolutions = (c, rl1)"
    by (cases "checkPointerInObject solver pointer oi rl maxResolutions")
  let ?uge = "UgeExpr (getOffset pointer) (getBaseExpr (fst oi))"
  from Cons.prems(3) chk have c: "c = 2"
    and step: "(mustBeTrue solver ?uge = Some True \<and> rl' = rl1)
      \<or> (mustBeTrue solver ?uge = Some False
          \<and> resolve_backward solver timeout delta pointer maxResolutions rest rl1 (Suc k) = (None, rl', k'))"
    by (auto split: if_splits option.splits bool.splits)
  from checkPointerInObject_result [OF chk] c
  have sub: "set rl \<subseteq> set rl1"
    and oi: "oi \<in> set rl1 \<or> mayBeTrue solver (BoundsCheckPointer (fst oi) pointer) = Some False"
    by auto
  from oi answers_for_may_not [OF sound]
  have oi': "oi \<in> set rl1 \<or> (\<forall>\<sigma> \<in> M. \<not> holds \<sigma> (BoundsCheckPointer (fst oi) pointer))"
    by blast
  from step show ?case
  proof
    assume brk: "mustBeTrue solver ?uge = Some True \<and> rl' = rl1"
    have "\<forall>\<sigma> \<in> M. \<not> holds \<sigma> (BoundsCheckPointer (fst e) pointer)" if e: "e \<in> set rest" for e
    proof
      fix \<sigma> assume \<sigma>: "\<sigma> \<in> M"
      from Cons.prems(1) e have lt: "address (fst e) < address (fst oi)" by auto
      from answers_for_must [OF sound] brk \<sigma> have "holds \<sigma> ?uge" by blast
      then have ge: "address (fst oi) \<le> eval \<sigma> (getOffset pointer)"
        by (simp add: getBaseExpr_def)
      show "\<not> holds \<sigma> (BoundsCheckPointer (fst e) pointer)"
      proof
        assume "holds \<sigma> (BoundsCheckPointer (fst e) pointer)"
        then have "in_bounds \<sigma> (fst e) (eval \<sigma> (getOffset pointer))" by simp
        from Cons.prems(2) [OF _ _ lt \<sigma> this] e
        have "eval \<sigma> (getOffset pointer) < address (fst oi)" by simp
        with ge show False by simp
      qed
    qed
    with brk sub oi' show ?thesis by auto
  next
    assume cont: "mustBeTrue solver ?uge = Some False
          \<and> resolve_backward solver timeout delta pointer maxResolutions rest rl1 (Suc k) = (None, rl', k')"
    from Cons.prems(1) have desc': "sorted_wrt (\<lambda>a b. address (fst b) < address (fst a)) rest"
      by simp
    have "set rl1 \<subseteq> set rl'
         \<and> (\<forall>e \<in> set rest. e \<in> set rl' \<or> (\<forall>\<sigma> \<in> M. \<not> holds \<sigma> (BoundsCheckPointer (fst e) pointer)))"
    proof (rule Cons.IH [OF desc'])
      show "resolve_backward solver timeout delta pointer maxResolutions rest rl1 (Suc k) = (None, rl', k')"
        using cont by simp
    next
      fix e e' \<sigma> a
      assume "e \<in> set rest" "e' \<in> set rest" "address (fst e) < address (fst e')" "\<sigma> \<in> M"
        "in_bounds \<sigma> (fst e) a"
      then show "a < address (fst e')" using Cons.prems(2) [of e e' \<sigma> a] by simp
    qed
    with sub oi' show ?thesis by auto
  qed
qed

lemma resolve_forward_left:
  assumes sound: "answers_for solver M"
    and asc: "sorted_wrt (\<lambda>a b. address (fst a) < address (fst b)) ops"
    and nowrap: "\<And>e \<sigma> a. e \<in> set ops \<Longrightarrow> \<sigma> \<in> M \<Longrightarrow> in_bounds \<sigma> (fst e) a \<Longrightarrow> address (fst e) \<le> a"
    and run: "resolve_forward solver timeout delta pointer maxResolutions ops rl k = (None, rl', k')"
  shows "set rl \<subseteq> set rl'
         \<and> (\<forall>e \<in> set ops. e \<in> set rl' \<or> (\<forall>\<sigma> \<in> M. \<not> holds \<sigma> (BoundsCheckPointer (fst e) pointer)))"
  using asc nowrap run
proof (induction ops arbitrary: rl k)
  case Nil
  then show ?case by simp
next
  case (Cons oi rest)
  obtain c rl1 where chk: "checkPointerInObject solver pointer oi rl maxResolutions = (c, rl1)"
    by (cases "checkPointerInObject solver pointer oi rl maxResolutions")
  let ?ult = "UltExpr (getOffset pointer) (getBaseExpr (fst oi))"
  from Cons.prems(3) chk
  have step: "(mustBeTrue solver ?ult = Some True \<and> rl' = rl)
      \<or> (mustBeTrue solver ?ult = Some False \<and> c = 2
          \<and> resolve_forward solver timeout delta pointer maxResolutions rest rl1 (Suc k) = (None, rl', k'))"
    by (auto split: if_splits option.splits bool.splits)
  from step show ?case
  proof
    assume brk: "mustBeTrue solver ?ult = Some True \<and> rl' = rl"
    have "\<forall>\<sigma> \<in> M. \<not> holds \<sigma> (BoundsCheckPointer (fst e) pointer)" if e: "e \<in> set (oi # rest)" for e
    proof
      fix \<sigma> assume \<sigma>: "\<sigma> \<in> M"
      from Cons.prems(1) e have le: "address (fst oi) \<le> address (fst e)" by auto
      from answers_for_must [OF sound] brk \<sigma> have "holds \<sigma> ?ult" by blast
      then have lt: "eval \<sigma> (getOffset pointer) < address (fst oi)"
        by (simp add: getBaseExpr_def)
      show "\<not> holds \<sigma> (BoundsCheckPointer (fst e) pointer)"
      proof
        assume "holds \<sigma> (BoundsCheckPointer (fst e) pointer)"
        then have "in_bounds \<sigma> (fst e) (eval \<sigma> (getOffset pointer))" by simp
        from Cons.prems(2) [OF e \<sigma> this] le lt show False by simp
      qed
    qed
    with brk show ?thesis by auto
  next
    assume cont: "mustBeTrue solver ?ult = Some False \<and> c = 2
          \<and> resolve_forward solver timeout delta pointer maxResolutions rest rl1 (Suc k) = (None, rl', k')"
    from checkPointerInObject_result [OF chk] cont
    have sub: "set rl \<subseteq> set rl1"
      and oi: "oi \<in> set rl1 \<or> mayBeTrue solver (BoundsCheckPointer (fst oi) pointer) = Some False"
      by auto
    from oi answers_for_may_not [OF sound]
    have oi': "oi \<in> set rl1 \<or> (\<forall>\<sigma> \<in> M. \<not> holds \<sigma> (BoundsCheckPointer (fst oi) pointer))"
      by blast
    from Cons.prems(1) have asc': "sorted_wrt (\<lambda>a b. address (fst a) < address (fst b)) rest"
      by simp
    have "set rl1 \<subseteq> set rl'
         \<and> (\<forall>e \<in> set rest. e \<in> set rl' \<or> (\<forall>\<sigma> \<in> M. \<not> holds \<sigma> (BoundsCheckPointer (fst e) pointer)))"
    proof (rule Cons.IH [OF asc'])
      show "resolve_forward solver timeout delta pointer maxResolutions rest rl1 (Suc k) = (None, rl', k')"
        using cont by simp
    next
      fix e \<sigma> a
      assume "e \<in> set rest" "\<sigma> \<in> M" "in_bounds \<sigma> (fst e) a"
      then show "address (fst e) \<le> a" using Cons.prems(2) [of e \<sigma> a] by simp
    qed
    with sub oi' show ?thesis by auto
  qed
qed

lemma resolve_backward_unique:
  assumes "resolve_backward solver timeout delta pointer maxResolutions ops rl k = (Some False, rl', k')"
  shows "\<exists>e \<in> set ops. rl' = [e] \<and> mustBeTrue solver (BoundsCheckPointer (fst e) pointer) = Some True"
  using assms
proof (induction ops arbitrary: rl k)
  case Nil
  then show ?case by simp
next
  case (Cons oi rest)
  obtain c rl1 where chk: "checkPointerInObject solver pointer oi rl maxResolutions = (c, rl1)"
    by (cases "checkPointerInObject solver pointer oi rl maxResolutions")
  from Cons.prems chk
  have "(c = 0 \<and> rl' = rl1)
      \<or> resolve_backward solver timeout delta pointer maxResolutions rest rl1 (Suc k) = (Some False, rl', k')"
    by (auto split: if_splits option.splits bool.splits)
  then show ?case
  proof
    assume "c = 0 \<and> rl' = rl1"
    with checkPointerInObject_result [OF chk] show ?thesis by auto
  next
    assume "resolve_backward solver timeout delta pointer maxResolutions rest rl1 (Suc k) = (Some False, rl', k')"
    from Cons.IH [OF this] show ?thesis by auto
  qed
qed

lemma resolve_forward_unique:
  assumes "resolve_forward solver timeout delta pointer maxResolutions ops rl k = (Some False, rl', k')"
  shows "\<exists>e \<in> set ops. rl' = [e] \<and> mustBeTrue solver (BoundsCheckPointer (fst e) pointer) = Some True"
  using assms
proof (induction ops arbitrary: rl k)
  case Nil
  then show ?case by simp
next
  case (Cons oi rest)
  obtain c rl1 where chk: "checkPointerInObject solver pointer oi rl maxResolutions = (c, rl1)"
    by (cases "checkPointerInObject solver pointer oi rl maxResolutions")
  from Cons.prems chk
  have "(c = 0 \<and> rl' = rl1)
      \<or> resolve_forward solver timeout delta pointer maxResolutions rest rl1 (Suc k) = (Some False, rl', k')"
    by (auto split: if_splits option.splits bool.splits)
  then show ?case
  proof
    assume "c = 0 \<and> rl' = rl1"
    with checkPointerInObject_result [OF chk] show ?thesis by auto
  next
    assume "resolve_forward solver timeout delta pointer maxResolutions rest rl1 (Suc k) = (Some False, rl', k')"
    from Cons.IH [OF this] show ?thesis by auto
  qed
qed


lemma pm_upper_bound_parts:
  assumes "pm_sorted key m"
  shows "set (fst (pm_upper_bound key k m)) \<union> set (snd (pm_upper_bound key k m)) = set m"
    and "sorted_wrt (\<lambda>a b. key (fst b) < key (fst a)) (fst (pm_upper_bound key k m))"
    and "sorted_wrt (\<lambda>a b. key (fst a) < key (fst b)) (snd (pm_upper_bound key k m))"
proof -
  let ?P = "\<lambda>e. \<not> key k < key (fst e)"
  have split: "takeWhile ?P m @ dropWhile ?P m = m" by (rule takeWhile_dropWhile_id)
  have "set (takeWhile ?P m) \<union> set (dropWhile ?P m) = set m"
    by (metis set_append takeWhile_dropWhile_id)
  then show "set (fst (pm_upper_bound key k m)) \<union> set (snd (pm_upper_bound key k m)) = set m"
    by (simp add: pm_upper_bound_def)
  from assms have "sorted_wrt (\<lambda>a b. key (fst a) < key (fst b)) (takeWhile ?P m @ dropWhile ?P m)"
    by (simp only: split pm_sorted_def)
  then have "sorted_wrt (\<lambda>a b. key (fst a) < key (fst b)) (takeWhile ?P m)"
    and "sorted_wrt (\<lambda>a b. key (fst a) < key (fst b)) (dropWhile ?P m)"
    by (simp_all only: sorted_wrt_append)
  then show "sorted_wrt (\<lambda>a b. key (fst b) < key (fst a)) (fst (pm_upper_bound key k m))"
    and "sorted_wrt (\<lambda>a b. key (fst a) < key (fst b)) (snd (pm_upper_bound key k m))"
    by (simp_all add: pm_upper_bound_def sorted_wrt_rev)
qed

lemma separated_in_bounds:
  assumes "separated M as" and "\<sigma> \<in> M" and "e \<in> set (objects as)" and "in_bounds \<sigma> (fst e) a"
  shows "address (fst e) \<le> a"
    and "e' \<in> set (objects as) \<Longrightarrow> address (fst e) < address (fst e') \<Longrightarrow> a < address (fst e')"
  using assms unfolding separated_def by blast+

lemma must_in_excludes_others:
  assumes sorted: "pm_sorted address (objects as)" and sep: "separated M as"
    and e0: "e0 \<in> set (objects as)"
    and must: "\<forall>\<sigma> \<in> M. holds \<sigma> (BoundsCheckPointer (fst e0) pointer)"
    and e: "e \<in> set (objects as)" and ne: "e \<noteq> e0" and \<sigma>: "\<sigma> \<in> M"
  shows "\<not> holds \<sigma> (BoundsCheckPointer (fst e) pointer)"
proof
  let ?a = "eval \<sigma> (getOffset pointer)"
  assume "holds \<sigma> (BoundsCheckPointer (fst e) pointer)"
  then have in_e: "in_bounds \<sigma> (fst e) ?a" by simp
  from must \<sigma> have in_e0: "in_bounds \<sigma> (fst e0) ?a" by simp
  from pm_sorted_key_inj [OF sorted e e0] ne have "address (fst e) \<noteq> address (fst e0)" by blast
  then consider "address (fst e) < address (fst e0)" | "address (fst e0) < address (fst e)"
    by (meson linorder_neqE)
  then show False
  proof cases
    case 1
    from separated_in_bounds(2) [OF sep \<sigma> e in_e e0 1] separated_in_bounds(1) [OF sep \<sigma> e0 in_e0]
    show False by simp
  next
    case 2
    from separated_in_bounds(2) [OF sep \<sigma> e0 in_e0 e 2] separated_in_bounds(1) [OF sep \<sigma> e in_e]
    show False by simp
  qed
qed


lemma resolveConstantSegment_flat:
  assumes sound: "answers_for solver M"
    and flat: "getSegment pointer = ConstantExpr 0"
    and sorted: "pm_sorted address (objects as)"
    and sep: "separated M as"
    and run: "resolveConstantSegment as solver pointer [] maxResolutions timeout delta k
                = Inr (incomplete, rl, k')"
  shows "(\<forall>e \<in> set rl. e \<in> set (objects as)
            \<and> mayBeTrue solver (BoundsCheckPointer (fst e) pointer) = Some True)
       \<and> (\<not> incomplete \<longrightarrow>
            (\<forall>e \<in> set (objects as).
               e \<in> set rl \<or> (\<forall>\<sigma> \<in> M. \<not> holds \<sigma> (BoundsCheckPointer (fst e) pointer))))"
proof (cases "getValue solver (getOffset pointer)")
  case None
  with run flat show ?thesis by (simp add: resolveConstantSegment_def)
next
  case (Some example)
  define before where "before = fst (pm_upper_bound address (hack example) (objects as))"
  define after where "after = snd (pm_upper_bound address (hack example) (objects as))"
  from pm_upper_bound_parts [OF sorted, of "hack example"]
  have all: "set before \<union> set after = set (objects as)"
    and desc: "sorted_wrt (\<lambda>a b. address (fst b) < address (fst a)) before"
    and asc: "sorted_wrt (\<lambda>a b. address (fst a) < address (fst b)) after"
    by (simp_all add: before_def after_def)
  have below: "a < address (fst e')"
    if "e \<in> set before" "e' \<in> set before" "address (fst e) < address (fst e')" "\<sigma> \<in> M"
      "in_bounds \<sigma> (fst e) a" for e e' \<sigma> a
    using separated_in_bounds(2) [OF sep that(4) _ that(5) _ that(3)] that(1,2) all by blast
  have nowrap: "address (fst e) \<le> a"
    if "e \<in> set after" "\<sigma> \<in> M" "in_bounds \<sigma> (fst e) a" for e \<sigma> a
    using separated_in_bounds(1) [OF sep that(2) _ that(3)] that(1) all by blast
  have unique: "\<forall>e \<in> set (objects as).
      e \<in> set [e0] \<or> (\<forall>\<sigma> \<in> M. \<not> holds \<sigma> (BoundsCheckPointer (fst e) pointer))"
    if "e0 \<in> set (objects as)"
      and "mustBeTrue solver (BoundsCheckPointer (fst e0) pointer) = Some True" for e0
  proof
    fix e assume e: "e \<in> set (objects as)"
    from answers_for_must [OF sound that(2)]
    have must: "\<forall>\<sigma> \<in> M. holds \<sigma> (BoundsCheckPointer (fst e0) pointer)" .
    show "e \<in> set [e0] \<or> (\<forall>\<sigma> \<in> M. \<not> holds \<sigma> (BoundsCheckPointer (fst e) pointer))"
      using must_in_excludes_others [OF sorted sep that(1) must e] by (cases "e = e0") auto
  qed
  obtain rb rl1 k1 where bwd:
    "resolve_backward solver timeout delta pointer maxResolutions before [] k = (rb, rl1, k1)"
    by (cases "resolve_backward solver timeout delta pointer maxResolutions before [] k")
  have sound1: "e \<in> set before \<and> mayBeTrue solver (BoundsCheckPointer (fst e) pointer) = Some True"
    if "e \<in> set rl1" for e
    using resolve_backward_appended [OF bwd that] by simp
  show ?thesis
  proof (cases rb)
    case (Some b)
    with run flat \<open>getValue solver (getOffset pointer) = Some example\<close> bwd
    have res: "incomplete = b" "rl = rl1"
      by (simp_all add: resolveConstantSegment_def before_def)
    have "\<forall>e \<in> set (objects as).
            e \<in> set rl \<or> (\<forall>\<sigma> \<in> M. \<not> holds \<sigma> (BoundsCheckPointer (fst e) pointer))"
      if "\<not> b"
    proof -
      from bwd Some that resolve_backward_unique [of solver timeout delta pointer maxResolutions before "[]" k rl1 k1]
      obtain e0 where "e0 \<in> set before" "rl1 = [e0]"
        "mustBeTrue solver (BoundsCheckPointer (fst e0) pointer) = Some True"
        by auto
      with unique [of e0] all res show ?thesis by auto
    qed
    with res sound1 all show ?thesis by auto
  next
    case None
    obtain rf rl2 k2 where fwd:
      "resolve_forward solver timeout delta pointer maxResolutions after rl1 k1 = (rf, rl2, k2)"
      by (cases "resolve_forward solver timeout delta pointer maxResolutions after rl1 k1")
    have sound2: "e \<in> set (objects as) \<and> mayBeTrue solver (BoundsCheckPointer (fst e) pointer) = Some True"
      if "e \<in> set rl2" for e
      using resolve_forward_appended [OF fwd that] sound1 [of e] all by auto
    from run flat \<open>getValue solver (getOffset pointer) = Some example\<close> bwd None fwd
    have res: "incomplete = (case rf of Some b \<Rightarrow> b | None \<Rightarrow> False)" "rl = rl2"
      by (auto simp: resolveConstantSegment_def before_def after_def split: option.splits)
    have "\<forall>e \<in> set (objects as).
            e \<in> set rl \<or> (\<forall>\<sigma> \<in> M. \<not> holds \<sigma> (BoundsCheckPointer (fst e) pointer))"
      if "\<not> incomplete"
    proof (cases rf)
      case (Some b)
      with res that have "rf = Some False" by simp
      with fwd resolve_forward_unique [of solver timeout delta pointer maxResolutions after rl1 k1 rl2 k2]
      obtain e0 where "e0 \<in> set after" "rl2 = [e0]"
        "mustBeTrue solver (BoundsCheckPointer (fst e0) pointer) = Some True"
        by auto
      with unique [of e0] all res show ?thesis by auto
    next
      case rfNone: None
      from bwd None have bwd':
        "resolve_backward solver timeout delta pointer maxResolutions before [] k = (None, rl1, k1)"
        by simp
      from fwd rfNone have fwd':
        "resolve_forward solver timeout delta pointer maxResolutions after rl1 k1 = (None, rl2, k2)"
        by simp
      have "set [] \<subseteq> set rl1
         \<and> (\<forall>e \<in> set before. e \<in> set rl1 \<or> (\<forall>\<sigma> \<in> M. \<not> holds \<sigma> (BoundsCheckPointer (fst e) pointer)))"
        by (rule resolve_backward_left [OF sound desc _ bwd']) (rule below; assumption)
      then have b: "\<forall>e \<in> set before. e \<in> set rl1 \<or> (\<forall>\<sigma> \<in> M. \<not> holds \<sigma> (BoundsCheckPointer (fst e) pointer))"
        by simp
      have "set rl1 \<subseteq> set rl2
         \<and> (\<forall>e \<in> set after. e \<in> set rl2 \<or> (\<forall>\<sigma> \<in> M. \<not> holds \<sigma> (BoundsCheckPointer (fst e) pointer)))"
        by (rule resolve_forward_left [OF sound asc _ fwd']) (rule nowrap; assumption)
      then have f: "set rl1 \<subseteq> set rl2"
        "\<forall>e \<in> set after. e \<in> set rl2 \<or> (\<forall>\<sigma> \<in> M. \<not> holds \<sigma> (BoundsCheckPointer (fst e) pointer))"
        by simp_all
      show ?thesis
      proof
        fix e assume "e \<in> set (objects as)"
        with all have "e \<in> set before \<or> e \<in> set after" by blast
        with b f res show "e \<in> set rl \<or> (\<forall>\<sigma> \<in> M. \<not> holds \<sigma> (BoundsCheckPointer (fst e) pointer))"
          by blast
      qed
    qed
    with res sound2 show ?thesis by auto
  qed
qed


lemma in_bounds_constant_size:
  assumes size: "size_expr mo = ConstantExpr sz"
    and fits: "unat (address mo) + unat sz \<le> 2 ^ 64"
    and inb: "in_bounds \<sigma> mo a"
  shows "unat (address mo) \<le> unat a \<and> unat a < unat (address mo) + max 1 (unat sz)"
proof (cases "sz = 0 \<and> a = address mo")
  case True
  then show ?thesis by simp
next
  case False
  with inb size have lt: "unat (a - address mo) < unat sz"
    by (auto simp: in_bounds_def word_less_nat_alt)
  show ?thesis
  proof (cases "unat (address mo) \<le> unat a")
    case True
    with lt show ?thesis by (simp add: unat_sub_if_size)
  next
    case False
    with lt have "unat a + 2 ^ 64 - unat (address mo) < unat sz"
      by (simp add: unat_sub_if_size word_size)
    with fits False show ?thesis by simp
  qed
qed

lemma layout_fits_ascending:
  "layout_fits (e # es) \<Longrightarrow> x \<in> set es \<Longrightarrow> unat (address (fst e)) < unat (address (fst x))"
proof (induction es arbitrary: e)
  case Nil
  then show ?case by simp
next
  case (Cons e' es)
  from Cons.prems(1) have step: "unat (address (fst e)) < unat (address (fst e'))"
    and rest: "layout_fits (e' # es)"
    by (auto split: Expr.splits)
  show ?case
  proof (cases "x = e'")
    case True
    with step show ?thesis by simp
  next
    case False
    with Cons.prems(2) have "x \<in> set es" by simp
    from Cons.IH [OF rest this] step show ?thesis by simp
  qed
qed

lemma layout_fits_in_bounds:
  assumes "layout_fits xs" and "e \<in> set xs" and "in_bounds \<sigma> (fst e) a"
  shows "unat (address (fst e)) \<le> unat a
         \<and> (\<forall>e' \<in> set xs. unat (address (fst e)) < unat (address (fst e')) \<longrightarrow>
               unat a < unat (address (fst e')))"
  using assms
proof (induction xs rule: layout_fits.induct)
  case 1
  then show ?case by simp
next
  case (2 x)
  then obtain sz where "size_expr (fst e) = ConstantExpr sz"
    "unat (address (fst e)) + unat sz \<le> 2 ^ 64"
    by (auto split: Expr.splits)
  from in_bounds_constant_size [OF this "2.prems"(3)] "2.prems"(2) show ?case by simp
next
  case (3 x x' es)
  from "3.prems"(1) have rest: "layout_fits (x' # es)" by simp
  show ?case
  proof (cases "e = x")
    case True
    from "3.prems"(1) obtain sz where size: "size_expr (fst x) = ConstantExpr sz"
      and nxt: "unat (address (fst x)) + max 1 (unat sz) \<le> unat (address (fst x'))"
      by (auto split: Expr.splits)
    have "unat (address (fst x')) < 2 ^ 64"
      using unsigned_less [of "address (fst x')"] by simp
    with nxt have "unat (address (fst x)) + unat sz \<le> 2 ^ 64" by simp
    from in_bounds_constant_size [OF size this] "3.prems"(3) True
    have range: "unat (address (fst x)) \<le> unat a"
      "unat a < unat (address (fst x)) + max 1 (unat sz)"
      by simp_all
    have "unat a < unat (address (fst e'))"
      if "e' \<in> set (x # x' # es)" "unat (address (fst x)) < unat (address (fst e'))" for e'
    proof -
      from that have "e' \<in> set (x' # es)" by auto
      then have "unat (address (fst x')) \<le> unat (address (fst e'))"
        using layout_fits_ascending [OF rest, of e'] by auto
      with range nxt show ?thesis by simp
    qed
    with range True show ?thesis by blast
  next
    case False
    with "3.prems"(2) have mem: "e \<in> set (x' # es)" by simp
    from "3.IH" [OF rest mem "3.prems"(3)]
    have ih: "unat (address (fst e)) \<le> unat a"
      "\<forall>e' \<in> set (x' # es). unat (address (fst e)) < unat (address (fst e')) \<longrightarrow>
               unat a < unat (address (fst e'))"
      by simp_all
    have "unat (address (fst x)) < unat (address (fst e))"
      using layout_fits_ascending [OF "3.prems"(1), of e] mem by simp
    with ih show ?thesis by auto
  qed
qed

lemma layout_fits_separated:
  assumes "layout_fits (objects as)"
  shows "separated M as"
  unfolding separated_def
  using layout_fits_in_bounds [OF assms] by (simp add: word_le_nat_alt word_less_nat_alt)


text \<open>
  C4 (as amended): for a pointer whose segment is the constant 0, an empty list at the
  call, a solver whose answers are right for the constraints and an address space whose
  objects are separated: every object appended to the resolution list is bound and
  satisfies \<open>mayBeTrue(bounds_check(mo, p))\<close>, and if resolve returns \<open>false\<close> (complete),
  every bound object not in the list satisfies \<open>mustBeTrue(not bounds_check(mo, p))\<close>.
\<close>

theorem resolve_flat_sound_complete:
  assumes sound: "answers_for solver M"
    and flat: "getSegment pointer = ConstantExpr 0"
    and wf: "wf_maps as"
    and sep: "separated M as"
    and run: "resolve as solver pointer [] maxResolutions timeout delta = Inr (incomplete, rl)"
  shows "(\<forall>e \<in> set rl. is_bound as (fst e) \<and> (\<exists>\<sigma> \<in> M. holds \<sigma> (BoundsCheckPointer (fst e) pointer)))
       \<and> (\<not> incomplete \<longrightarrow>
            (\<forall>mo. is_bound as mo \<and> mo \<notin> fst ` set rl \<longrightarrow>
                  (\<forall>\<sigma> \<in> M. \<not> holds \<sigma> (BoundsCheckPointer mo pointer))))"
proof -
  from wf have sorted: "pm_sorted address (objects as)" by (simp add: wf_maps_def)
  from run flat obtain k' where
    "resolveConstantSegment as solver pointer [] maxResolutions timeout delta 0
       = Inr (incomplete, rl, k')"
    by (auto simp: resolve_def split: sum.splits)
  from resolveConstantSegment_flat [OF sound flat sorted sep this]
  have appended: "\<forall>e \<in> set rl. e \<in> set (objects as)
            \<and> mayBeTrue solver (BoundsCheckPointer (fst e) pointer) = Some True"
    and others: "\<not> incomplete \<Longrightarrow> \<forall>e \<in> set (objects as).
               e \<in> set rl \<or> (\<forall>\<sigma> \<in> M. \<not> holds \<sigma> (BoundsCheckPointer (fst e) pointer))"
    by blast+
  have "is_bound as (fst e) \<and> (\<exists>\<sigma> \<in> M. holds \<sigma> (BoundsCheckPointer (fst e) pointer))"
    if "e \<in> set rl" for e
  proof -
    from appended that have mem: "e \<in> set (objects as)"
      and may: "mayBeTrue solver (BoundsCheckPointer (fst e) pointer) = Some True"
      by blast+
    from mem have "is_bound as (fst e)" by (simp add: is_bound_iff [OF sorted])
    with answers_for_may [OF sound may] show ?thesis by simp
  qed
  moreover have "\<forall>\<sigma> \<in> M. \<not> holds \<sigma> (BoundsCheckPointer mo pointer)"
    if "\<not> incomplete" "is_bound as mo" "mo \<notin> fst ` set rl" for mo
  proof -
    from that(2) obtain os where mem: "(mo, os) \<in> set (objects as)"
      by (auto simp: is_bound_iff [OF sorted])
    from that(3) have "(mo, os) \<notin> set rl" by force
    with others [OF that(1)] mem show ?thesis by force
  qed
  ultimately show ?thesis by blast
qed

theorem resolve_flat_sound_complete_witness:
  "answers_for (model_solver two_models) (set two_models)
   \<and> getSegment flat_symbolic = ConstantExpr 0
   \<and> wf_maps as_ABC
   \<and> separated (set two_models) as_ABC
   \<and> resolve as_ABC (model_solver two_models) flat_symbolic [] 0 0 (\<lambda>k. 0)
       = Inr (False, [(obj_A, 0), (obj_B, 1)])
   \<and> (\<exists>\<sigma> \<in> set two_models. holds \<sigma> (BoundsCheckPointer obj_A flat_symbolic))
   \<and> (\<exists>\<sigma> \<in> set two_models. holds \<sigma> (BoundsCheckPointer obj_B flat_symbolic))
   \<and> is_bound as_ABC obj_C
   \<and> \<not> (\<exists>\<sigma> \<in> set two_models. holds \<sigma> (BoundsCheckPointer obj_C flat_symbolic))"
proof -
  have flat: "getSegment flat_symbolic = ConstantExpr 0" by (simp add: flat_symbolic_def)
  have wf: "wf_maps as_ABC"
    by (simp add: wf_maps_def pm_sorted_def as_ABC_def obj_A_def obj_B_def obj_C_def)
  have "layout_fits (objects as_ABC)"
    by (simp add: as_ABC_def obj_A_def obj_B_def obj_C_def)
  then have sep: "separated (set two_models) as_ABC" by (rule layout_fits_separated)
  have run: "resolve as_ABC (model_solver two_models) flat_symbolic [] 0 0 (\<lambda>k. 0)
       = Inr (False, [(obj_A, 0), (obj_B, 1)])"
    by (simp add: resolve_eval as_ABC_def two_models_def flat_symbolic_def
        obj_A_def obj_B_def obj_C_def)
  have bound: "is_bound as_ABC obj_C"
    by (simp add: is_bound_def as_ABC_def obj_A_def obj_B_def obj_C_def)
  have out: "obj_C \<notin> fst ` set [(obj_A, 0 :: nat), (obj_B, 1)]"
    by (simp add: obj_A_def obj_B_def obj_C_def)
  from resolve_flat_sound_complete [OF answers_for_model_solver flat wf sep run] bound out
  have "(\<exists>\<sigma> \<in> set two_models. holds \<sigma> (BoundsCheckPointer obj_A flat_symbolic))
      \<and> (\<exists>\<sigma> \<in> set two_models. holds \<sigma> (BoundsCheckPointer obj_B flat_symbolic))
      \<and> \<not> (\<exists>\<sigma> \<in> set two_models. holds \<sigma> (BoundsCheckPointer obj_C flat_symbolic))"
    by auto
  with answers_for_model_solver flat wf sep run bound show ?thesis by blast
qed


text \<open>
  On the segment paths objects are appended with no bounds check: for the constant
  segment 1 and for a symbolic segment that can only be 1, offset 0x9000, resolve returns
  the 16-byte object of segment 1 and reports complete.
\<close>

theorem resolve_segment_appends_out_of_bounds:
  "answers_for (model_solver sized_16) (set sized_16)
   \<and> wf_maps as_S \<and> segment_sync as_S
   \<and> resolve as_S (model_solver sized_16)
        \<lparr>getSegment = ConstantExpr 1, getOffset = ConstantExpr 0x9000\<rparr> [] 0 0 (\<lambda>k. 0)
       = Inr (False, [(obj_S, 0)])
   \<and> \<not> (\<exists>\<sigma> \<in> set sized_16.
          holds \<sigma> (BoundsCheckPointer obj_S \<lparr>getSegment = ConstantExpr 1, getOffset = ConstantExpr 0x9000\<rparr>))
   \<and> resolve as_S (model_solver sized_16)
        \<lparr>getSegment = SymbolicExpr 1, getOffset = ConstantExpr 0x9000\<rparr> [] 0 0 (\<lambda>k. 0)
       = Inr (False, [(obj_S, 0)])
   \<and> \<not> (\<exists>\<sigma> \<in> set sized_16.
          holds \<sigma> (BoundsCheckPointer obj_S \<lparr>getSegment = SymbolicExpr 1, getOffset = ConstantExpr 0x9000\<rparr>))"
proof -
  have "wf_maps as_S" by (simp add: wf_maps_def pm_sorted_def as_S_def)
  moreover have "segment_sync as_S"
    by (auto simp: segment_sync_def segmentMap_at_def is_bound_def as_S_def obj_S_def)
  moreover have "resolve as_S (model_solver sized_16)
        \<lparr>getSegment = ConstantExpr 1, getOffset = ConstantExpr 0x9000\<rparr> [] 0 0 (\<lambda>k. 0)
       = Inr (False, [(obj_S, 0)])"
    by (simp add: resolve_eval as_S_def obj_S_def)
  moreover have "\<not> (\<exists>\<sigma> \<in> set sized_16.
          holds \<sigma> (BoundsCheckPointer obj_S \<lparr>getSegment = ConstantExpr 1, getOffset = ConstantExpr 0x9000\<rparr>))"
    by (simp add: sized_16_def in_bounds_def obj_S_def)
  moreover have "resolve as_S (model_solver sized_16)
        \<lparr>getSegment = SymbolicExpr 1, getOffset = ConstantExpr 0x9000\<rparr> [] 0 0 (\<lambda>k. 0)
       = Inr (False, [(obj_S, 0)])"
    by (simp add: resolve_eval sized_16_def as_S_def obj_S_def)
  moreover have "\<not> (\<exists>\<sigma> \<in> set sized_16.
          holds \<sigma> (BoundsCheckPointer obj_S \<lparr>getSegment = SymbolicExpr 1, getOffset = ConstantExpr 0x9000\<rparr>))"
    by (simp add: sized_16_def in_bounds_def obj_S_def)
  ultimately show ?thesis using answers_for_model_solver by blast
qed
section \<open>When resolve reports an incomplete enumeration\<close>

lemma checkPointerInObject_cap:
  assumes "below_cap maxResolutions rl"
    and "checkPointerInObject solver pointer op rl maxResolutions = (c, rl')"
  shows "(c \<noteq> 1 \<longrightarrow> below_cap maxResolutions rl')
       \<and> (c = 1 \<and> never_fails solver \<longrightarrow> at_cap maxResolutions rl')"
proof -
  from never_fails_answers(2,3) [of solver]
  have nf: "never_fails solver \<Longrightarrow> mayBeTrue solver (BoundsCheckPointer (fst op) pointer) \<noteq> None
            \<and> mustBeTrue solver (BoundsCheckPointer (fst op) pointer) \<noteq> None"
    by fastforce
  from assms nf show ?thesis
    by (cases rl)
       (auto simp: checkPointerInObject_def below_cap_def at_cap_def Let_def
        split: option.splits bool.splits if_splits)
qed

lemma checkPointerInObject_extends:
  assumes "extends solver' solver"
    and "checkPointerInObject solver pointer op rl maxResolutions = (c, rl')"
    and "c \<noteq> 1"
  shows "checkPointerInObject solver' pointer op rl maxResolutions = (c, rl')"
  using assms
  by (auto simp: checkPointerInObject_def extends_def Let_def
      split: option.splits bool.splits if_splits)

lemma resolve_backward_checks:
  assumes "resolve_backward solver timeout delta pointer maxResolutions ops rl k = (res, rl', k')"
  shows "k \<le> k' \<and> (\<forall>j. k \<le> j \<and> j < k' \<and> timed_out timeout delta j \<longrightarrow> res = Some True)"
  using assms
proof (induction ops arbitrary: rl k)
  case Nil
  then show ?case by simp
next
  case (Cons oi rest)
  obtain c rl1 where chk: "checkPointerInObject solver pointer oi rl maxResolutions = (c, rl1)"
    by (cases "checkPointerInObject solver pointer oi rl maxResolutions")
  from Cons.prems chk consider
      (timeout) "timed_out timeout delta k" "res = Some True" "k' = Suc k"
    | (returned) "\<not> timed_out timeout delta k" "k' = Suc k"
    | (continue) "\<not> timed_out timeout delta k"
        "resolve_backward solver timeout delta pointer maxResolutions rest rl1 (Suc k) = (res, rl', k')"
    by (auto split: if_splits option.splits bool.splits)
  then show ?case
  proof cases
    case timeout
    then show ?thesis by simp
  next
    case returned
    then show ?thesis by (auto simp: less_Suc_eq_le)
  next
    case continue
    have "Suc k \<le> j" if "k \<le> j" "timed_out timeout delta j" for j
      using that continue(1) by (cases "j = k") auto
    with Cons.IH [OF continue(2)] show ?thesis
      by (meson Suc_leD)
  qed
qed

lemma resolve_forward_checks:
  assumes "resolve_forward solver timeout delta pointer maxResolutions ops rl k = (res, rl', k')"
  shows "k \<le> k' \<and> (\<forall>j. k \<le> j \<and> j < k' \<and> timed_out timeout delta j \<longrightarrow> res = Some True)"
  using assms
proof (induction ops arbitrary: rl k)
  case Nil
  then show ?case by simp
next
  case (Cons oi rest)
  obtain c rl1 where chk: "checkPointerInObject solver pointer oi rl maxResolutions = (c, rl1)"
    by (cases "checkPointerInObject solver pointer oi rl maxResolutions")
  from Cons.prems chk consider
      (timeout) "timed_out timeout delta k" "res = Some True" "k' = Suc k"
    | (returned) "\<not> timed_out timeout delta k" "k' = Suc k"
    | (continue) "\<not> timed_out timeout delta k"
        "resolve_forward solver timeout delta pointer maxResolutions rest rl1 (Suc k) = (res, rl', k')"
    by (auto split: if_splits option.splits bool.splits)
  then show ?case
  proof cases
    case timeout
    then show ?thesis by simp
  next
    case returned
    then show ?thesis by (auto simp: less_Suc_eq_le)
  next
    case continue
    have "Suc k \<le> j" if "k \<le> j" "timed_out timeout delta j" for j
      using that continue(1) by (cases "j = k") auto
    with Cons.IH [OF continue(2)] show ?thesis
      by (meson Suc_leD)
  qed
qed

lemma resolve_backward_cap:
  assumes "below_cap maxResolutions rl"
    and "resolve_backward solver timeout delta pointer maxResolutions ops rl k = (res, rl', k')"
  shows "(res \<noteq> Some True \<longrightarrow> below_cap maxResolutions rl')
       \<and> (res = Some True \<and> never_fails solver
            \<and> (\<forall>j. k \<le> j \<and> j < k' \<longrightarrow> \<not> timed_out timeout delta j)
          \<longrightarrow> at_cap maxResolutions rl')"
  using assms
proof (induction ops arbitrary: rl k)
  case Nil
  then show ?case by simp
next
  case (Cons oi rest)
  obtain c rl1 where chk: "checkPointerInObject solver pointer oi rl maxResolutions = (c, rl1)"
    by (cases "checkPointerInObject solver pointer oi rl maxResolutions")
  note cap = checkPointerInObject_cap [OF Cons.prems(1) chk]
  let ?uge = "UgeExpr (getOffset pointer) (getBaseExpr (fst oi))"
  from Cons.prems(2) chk consider
      (timeout) "timed_out timeout delta k" "res = Some True" "k' = Suc k"
    | (returned) "c \<noteq> 2" "res = Some (c \<noteq> 0)" "rl' = rl1"
    | (failed) "c = 2" "mustBeTrue solver ?uge = None" "res = Some True"
    | (left) "c = 2" "res = None" "rl' = rl1"
    | (continue) "c = 2"
        "resolve_backward solver timeout delta pointer maxResolutions rest rl1 (Suc k) = (res, rl', k')"
    by (auto split: if_splits option.splits bool.splits)
  then show ?case
  proof cases
    case timeout
    then show ?thesis by auto
  next
    case returned
    from chk returned(1) have "c = 0 \<or> c = 1"
      by (auto simp: checkPointerInObject_def Let_def split: option.splits bool.splits if_splits)
    with returned cap show ?thesis by auto
  next
    case failed
    with never_fails_answers(3) [of solver ?uge] show ?thesis by auto
  next
    case left
    with cap show ?thesis by simp
  next
    case continue
    with cap have "below_cap maxResolutions rl1" by simp
    from Cons.IH [OF this continue(2)] show ?thesis by (meson Suc_leD)
  qed
qed

lemma resolve_forward_cap:
  assumes "below_cap maxResolutions rl"
    and "resolve_forward solver timeout delta pointer maxResolutions ops rl k = (res, rl', k')"
  shows "(res \<noteq> Some True \<longrightarrow> below_cap maxResolutions rl')
       \<and> (res = Some True \<and> never_fails solver
            \<and> (\<forall>j. k \<le> j \<and> j < k' \<longrightarrow> \<not> timed_out timeout delta j)
          \<longrightarrow> at_cap maxResolutions rl')"
  using assms
proof (induction ops arbitrary: rl k)
  case Nil
  then show ?case by simp
next
  case (Cons oi rest)
  obtain c rl1 where chk: "checkPointerInObject solver pointer oi rl maxResolutions = (c, rl1)"
    by (cases "checkPointerInObject solver pointer oi rl maxResolutions")
  note cap = checkPointerInObject_cap [OF Cons.prems(1) chk]
  let ?ult = "UltExpr (getOffset pointer) (getBaseExpr (fst oi))"
  from Cons.prems(2) chk consider
      (timeout) "timed_out timeout delta k" "res = Some True" "k' = Suc k"
    | (failed) "mustBeTrue solver ?ult = None" "res = Some True"
    | (left) "res = None" "rl' = rl"
    | (returned) "c \<noteq> 2" "res = Some (c \<noteq> 0)" "rl' = rl1"
    | (continue) "c = 2"
        "resolve_forward solver timeout delta pointer maxResolutions rest rl1 (Suc k) = (res, rl', k')"
    by (auto split: if_splits option.splits bool.splits)
  then show ?case
  proof cases
    case timeout
    then show ?thesis by auto
  next
    case failed
    with never_fails_answers(3) [of solver ?ult] show ?thesis by auto
  next
    case left
    with Cons.prems(1) show ?thesis by simp
  next
    case returned
    from chk returned(1) have "c = 0 \<or> c = 1"
      by (auto simp: checkPointerInObject_def Let_def split: option.splits bool.splits if_splits)
    with returned cap show ?thesis by auto
  next
    case continue
    with cap have "below_cap maxResolutions rl1" by simp
    from Cons.IH [OF this continue(2)] show ?thesis by (meson Suc_leD)
  qed
qed

lemma resolve_backward_extends:
  assumes ext: "extends solver' solver"
    and "resolve_backward solver timeout delta pointer maxResolutions ops rl k = (res, rl', k')"
    and "res \<noteq> Some True"
  shows "resolve_backward solver' 0 delta' pointer maxResolutions ops rl k = (res, rl', k')"
  using assms(2,3)
proof (induction ops arbitrary: rl k)
  case Nil
  then show ?case by simp
next
  case (Cons oi rest)
  obtain c rl1 where chk: "checkPointerInObject solver pointer oi rl maxResolutions = (c, rl1)"
    by (cases "checkPointerInObject solver pointer oi rl maxResolutions")
  let ?uge = "UgeExpr (getOffset pointer) (getBaseExpr (fst oi))"
  from Cons.prems chk consider
      (returned) "c = 0" "res = Some False" "rl' = rl1" "k' = Suc k"
    | (left) "c = 2" "mustBeTrue solver ?uge = Some True" "res = None" "rl' = rl1" "k' = Suc k"
    | (continue) "c = 2" "mustBeTrue solver ?uge = Some False"
        "resolve_backward solver timeout delta pointer maxResolutions rest rl1 (Suc k) = (res, rl', k')"
    by (auto split: if_splits option.splits bool.splits)
  then show ?case
  proof cases
    case returned
    with checkPointerInObject_extends [OF ext chk] show ?thesis by (simp add: timed_out_def)
  next
    case left
    with ext have "mustBeTrue solver' ?uge = Some True" by (simp add: extends_def)
    with left checkPointerInObject_extends [OF ext chk] show ?thesis by (simp add: timed_out_def)
  next
    case continue
    with ext have "mustBeTrue solver' ?uge = Some False" by (simp add: extends_def)
    with continue checkPointerInObject_extends [OF ext chk] Cons.IH [OF continue(3) Cons.prems(2)]
    show ?thesis by (simp add: timed_out_def)
  qed
qed

lemma resolve_forward_extends:
  assumes ext: "extends solver' solver"
    and "resolve_forward solver timeout delta pointer maxResolutions ops rl k = (res, rl', k')"
    and "res \<noteq> Some True"
  shows "resolve_forward solver' 0 delta' pointer maxResolutions ops rl k = (res, rl', k')"
  using assms(2,3)
proof (induction ops arbitrary: rl k)
  case Nil
  then show ?case by simp
next
  case (Cons oi rest)
  obtain c rl1 where chk: "checkPointerInObject solver pointer oi rl maxResolutions = (c, rl1)"
    by (cases "checkPointerInObject solver pointer oi rl maxResolutions")
  let ?ult = "UltExpr (getOffset pointer) (getBaseExpr (fst oi))"
  from Cons.prems chk consider
      (left) "mustBeTrue solver ?ult = Some True" "res = None" "rl' = rl" "k' = Suc k"
    | (returned) "mustBeTrue solver ?ult = Some False" "c = 0" "res = Some False" "rl' = rl1" "k' = Suc k"
    | (continue) "mustBeTrue solver ?ult = Some False" "c = 2"
        "resolve_forward solver timeout delta pointer maxResolutions rest rl1 (Suc k) = (res, rl', k')"
    by (auto split: if_splits option.splits bool.splits)
  then show ?case
  proof cases
    case left
    with ext have "mustBeTrue solver' ?ult = Some True" by (simp add: extends_def)
    with left show ?thesis by (simp add: timed_out_def)
  next
    case returned
    with ext have "mustBeTrue solver' ?ult = Some False" by (simp add: extends_def)
    with returned checkPointerInObject_extends [OF ext chk] show ?thesis by (simp add: timed_out_def)
  next
    case continue
    with ext have "mustBeTrue solver' ?ult = Some False" by (simp add: extends_def)
    with continue checkPointerInObject_extends [OF ext chk] Cons.IH [OF continue(3) Cons.prems(2)]
    show ?thesis by (simp add: timed_out_def)
  qed
qed

lemma resolve_segments_extends:
  assumes ext: "extends solver' solver"
    and "resolve_segments as solver timeout delta pointer segs rl k = Inr (False, rl')"
  shows "resolve_segments as solver' 0 delta' pointer segs rl k = Inr (False, rl')"
  using assms(2)
proof (induction segs arbitrary: rl k)
  case Nil
  then show ?case by simp
next
  case (Cons res rest)
  let ?eq = "EqExpr (getSegment pointer) (ConstantExpr (fst res))"
  from Cons.prems consider
      (skip) "mayBeTrue solver ?eq = Some False"
        "resolve_segments as solver timeout delta pointer rest rl (Suc k) = Inr (False, rl')"
    | (append) pair where "mayBeTrue solver ?eq = Some True"
        "pm_lookup address (snd res) (objects as) = Some pair"
        "resolve_segments as solver timeout delta pointer rest (rl @ [pair]) (Suc k) = Inr (False, rl')"
    by (auto split: if_splits option.splits bool.splits)
  then show ?case
  proof cases
    case skip
    with ext have "mayBeTrue solver' ?eq = Some False" by (simp add: extends_def)
    with Cons.IH [OF skip(2)] show ?thesis by (simp add: timed_out_def)
  next
    case append
    with ext have "mayBeTrue solver' ?eq = Some True" by (simp add: extends_def)
    with append(2) Cons.IH [OF append(3)] show ?thesis by (simp add: timed_out_def)
  qed
qed

lemma resolve_segments_erase:
  "resolve_segments as solver timeout delta pointer segs rl k
     = erase_count (resolve_segments_counting as solver timeout delta pointer segs rl k)"
  by (induction segs arbitrary: rl k) (auto simp: erase_count_def split: option.splits bool.splits)

lemma resolve_erase:
  "resolve as solver pointer rl maxResolutions timeout delta
     = erase_count (resolve_counting as solver pointer rl maxResolutions timeout delta)"
  by (auto simp: resolve_def resolve_counting_def resolve_segments_erase erase_count_def
      split: option.splits bool.splits sum.splits)

lemma resolve_segments_counting_checks:
  assumes "resolve_segments_counting as solver timeout delta pointer segs rl k = Inr (b, rl', k')"
  shows "k \<le> k' \<and> (\<forall>j. k \<le> j \<and> j < k' \<and> timed_out timeout delta j \<longrightarrow> b)"
  using assms
proof (induction segs arbitrary: rl k)
  case Nil
  then show ?case by simp
next
  case (Cons res rest)
  from Cons.prems consider
      (timeout) "timed_out timeout delta k" "b" "k' = Suc k"
    | (returned) "\<not> timed_out timeout delta k" "k' = Suc k"
    | (continue) rl1 where "\<not> timed_out timeout delta k"
        "resolve_segments_counting as solver timeout delta pointer rest rl1 (Suc k) = Inr (b, rl', k')"
    by (auto split: if_splits option.splits bool.splits)
  then show ?case
  proof cases
    case timeout
    then show ?thesis by simp
  next
    case returned
    then show ?thesis by (auto simp: less_Suc_eq_le)
  next
    case continue
    have "Suc k \<le> j" if "k \<le> j" "timed_out timeout delta j" for j
      using that continue(1) by (cases "j = k") auto
    with Cons.IH [OF continue(2)] show ?thesis
      by (meson Suc_leD)
  qed
qed

lemma resolve_segments_counting_never_true:
  assumes "never_fails solver"
    and "resolve_segments_counting as solver timeout delta pointer segs rl k = Inr (incomplete, rl', k')"
    and "\<forall>j. k \<le> j \<and> j < k' \<longrightarrow> \<not> timed_out timeout delta j"
  shows "\<not> incomplete"
  using assms(2,3)
proof (induction segs arbitrary: rl k)
  case Nil
  then show ?case by simp
next
  case (Cons res rest)
  from never_fails_answers(2) [OF assms(1)] obtain b where
    may: "mayBeTrue solver (EqExpr (getSegment pointer) (ConstantExpr (fst res))) = Some b" by blast
  note chk = resolve_segments_counting_checks [OF Cons.prems(1)]
  show ?case
  proof (cases "timed_out timeout delta k")
    case True
    with Cons.prems(1) have "k' = Suc k" by simp
    with True Cons.prems(2) show ?thesis by auto
  next
    case False
    with Cons.prems(1) may obtain rl1 where
      nxt: "resolve_segments_counting as solver timeout delta pointer rest rl1 (Suc k) = Inr (incomplete, rl', k')"
      by (cases b) (auto split: option.splits)
    from Cons.prems(2) have "\<forall>j. Suc k \<le> j \<and> j < k' \<longrightarrow> \<not> timed_out timeout delta j"
      by (meson Suc_leD)
    from Cons.IH [OF nxt this] show ?thesis .
  qed
qed

lemma resolve_segments_prefix:
  assumes "resolve_segments as solver timeout delta pointer segs rl k = Inr (b, rl')"
  shows "\<exists>rest. rl' = rl @ rest"
  using assms
proof (induction segs arbitrary: rl k)
  case Nil
  then show ?case by simp
next
  case (Cons res rest)
  from Cons.prems consider
      (stop) "rl' = rl"
    | (continue) rl1 where "rl1 = rl \<or> (\<exists>pair. rl1 = rl @ [pair])"
        "resolve_segments as solver timeout delta pointer rest rl1 (Suc k) = Inr (b, rl')"
    by (auto split: if_splits option.splits bool.splits)
  then show ?case
  proof cases
    case stop
    then show ?thesis by simp
  next
    case continue
    from Cons.IH [OF continue(2)] continue(1) show ?thesis by auto
  qed
qed

lemma resolveConstantSegment_checks:
  assumes run: "resolveConstantSegment as solver pointer rl0 maxResolutions timeout delta k
                  = Inr (b, rl, k')"
  shows "k \<le> k' \<and> (\<forall>j. k \<le> j \<and> j < k' \<and> timed_out timeout delta j \<longrightarrow> b)"
proof (cases "getSegment pointer")
  case (SymbolicExpr n)
  with run show ?thesis by (simp add: resolveConstantSegment_def)
next
  case (ConstantExpr seg)
  show ?thesis
  proof (cases "seg = 0")
    case False
    with run ConstantExpr have "k' = k"
      by (auto simp: resolveConstantSegment_def split: sum.splits option.splits)
    then show ?thesis by auto
  next
    case True
    show ?thesis
    proof (cases "getValue solver (getOffset pointer)")
      case None
      with run ConstantExpr True have "k' = k" by (simp add: resolveConstantSegment_def)
      then show ?thesis by auto
    next
      case (Some example)
      let ?before = "fst (pm_upper_bound address (hack example) (objects as))"
      let ?after = "snd (pm_upper_bound address (hack example) (objects as))"
      obtain rb rl1 k1 where bwd:
        "resolve_backward solver timeout delta pointer maxResolutions ?before rl0 k = (rb, rl1, k1)"
        by (cases "resolve_backward solver timeout delta pointer maxResolutions ?before rl0 k")
      note bc = resolve_backward_checks [OF bwd]
      show ?thesis
      proof (cases rb)
        case (Some rb')
        with run ConstantExpr True \<open>getValue solver (getOffset pointer) = Some example\<close> bwd
        have "b = rb'" "k' = k1" by (simp_all add: resolveConstantSegment_def)
        with bc Some show ?thesis by auto
      next
        case None
        obtain rf rl2 k2 where fwd:
          "resolve_forward solver timeout delta pointer maxResolutions ?after rl1 k1 = (rf, rl2, k2)"
          by (cases "resolve_forward solver timeout delta pointer maxResolutions ?after rl1 k1")
        note fc = resolve_forward_checks [OF fwd]
        from run ConstantExpr True \<open>getValue solver (getOffset pointer) = Some example\<close> bwd None fwd
        have "b = (rf = Some True)" "k' = k2"
          by (auto simp: resolveConstantSegment_def split: option.splits)
        with bc fc None show ?thesis
          by (metis le_trans not_le option.distinct(1))
      qed
    qed
  qed
qed

lemma resolveConstantSegment_cap:
  assumes run: "resolveConstantSegment as solver pointer [] maxResolutions timeout delta k
                  = Inr (b, rl, k')"
  shows "(\<not> b \<longrightarrow> below_cap maxResolutions rl)
       \<and> (b \<and> never_fails solver \<and> (\<forall>j. k \<le> j \<and> j < k' \<longrightarrow> \<not> timed_out timeout delta j)
          \<longrightarrow> at_cap maxResolutions rl)"
proof (cases "getSegment pointer")
  case (SymbolicExpr n)
  with run show ?thesis by (simp add: resolveConstantSegment_def)
next
  case (ConstantExpr seg)
  have start: "below_cap maxResolutions []" by (auto simp: below_cap_def)
  show ?thesis
  proof (cases "seg = 0")
    case False
    with run ConstantExpr have "\<not> b" and "length rl \<le> 1"
      by (auto simp: resolveConstantSegment_def split: sum.splits option.splits)
    then show ?thesis by (auto simp: below_cap_def)
  next
    case True
    show ?thesis
    proof (cases "getValue solver (getOffset pointer)")
      case None
      with run ConstantExpr True have "b" by (simp add: resolveConstantSegment_def)
      with None never_fails_answers(1) [of solver "getOffset pointer"] show ?thesis by auto
    next
      case (Some example)
      let ?before = "fst (pm_upper_bound address (hack example) (objects as))"
      let ?after = "snd (pm_upper_bound address (hack example) (objects as))"
      obtain rb rl1 k1 where bwd:
        "resolve_backward solver timeout delta pointer maxResolutions ?before [] k = (rb, rl1, k1)"
        by (cases "resolve_backward solver timeout delta pointer maxResolutions ?before [] k")
      note bcap = resolve_backward_cap [OF start bwd]
      show ?thesis
      proof (cases rb)
        case (Some rb')
        with run ConstantExpr True \<open>getValue solver (getOffset pointer) = Some example\<close> bwd
        have "b = rb'" "rl = rl1" "k' = k1" by (simp_all add: resolveConstantSegment_def)
        with bcap Some show ?thesis by auto
      next
        case None
        with bcap have below: "below_cap maxResolutions rl1" by simp
        obtain rf rl2 k2 where fwd:
          "resolve_forward solver timeout delta pointer maxResolutions ?after rl1 k1 = (rf, rl2, k2)"
          by (cases "resolve_forward solver timeout delta pointer maxResolutions ?after rl1 k1")
        note fcap = resolve_forward_cap [OF below fwd]
        from resolve_backward_checks [OF bwd] have le: "k \<le> k1" by simp
        from run ConstantExpr True \<open>getValue solver (getOffset pointer) = Some example\<close> bwd None fwd
        have "b = (rf = Some True)" "rl = rl2" "k' = k2"
          by (auto simp: resolveConstantSegment_def split: option.splits)
        with fcap le show ?thesis by (meson le_trans)
      qed
    qed
  qed
qed

lemma resolveConstantSegment_extends:
  assumes ext: "extends solver' solver"
    and run: "resolveConstantSegment as solver pointer rl0 maxResolutions timeout delta k
                = Inr (False, rl, k')"
  shows "resolveConstantSegment as solver' pointer rl0 maxResolutions 0 delta' k = Inr (False, rl, k')"
proof (cases "getSegment pointer")
  case (SymbolicExpr n)
  with run show ?thesis by (simp add: resolveConstantSegment_def)
next
  case (ConstantExpr seg)
  show ?thesis
  proof (cases "seg = 0")
    case False
    with run ConstantExpr show ?thesis by (simp add: resolveConstantSegment_def)
  next
    case True
    from run ConstantExpr True obtain example where
      ex: "getValue solver (getOffset pointer) = Some example"
      by (auto simp: resolveConstantSegment_def split: option.splits)
    with ext have ex': "getValue solver' (getOffset pointer) = Some example"
      by (simp add: extends_def)
    let ?before = "fst (pm_upper_bound address (hack example) (objects as))"
    let ?after = "snd (pm_upper_bound address (hack example) (objects as))"
    obtain rb rl1 k1 where bwd:
      "resolve_backward solver timeout delta pointer maxResolutions ?before rl0 k = (rb, rl1, k1)"
      by (cases "resolve_backward solver timeout delta pointer maxResolutions ?before rl0 k")
    show ?thesis
    proof (cases rb)
      case (Some rb')
      with run ConstantExpr True ex bwd have "rb' = False" "rl = rl1" "k' = k1"
        by (simp_all add: resolveConstantSegment_def)
      with Some resolve_backward_extends [OF ext bwd, of delta'] ConstantExpr True ex'
      show ?thesis by (simp add: resolveConstantSegment_def)
    next
      case None
      obtain rf rl2 k2 where fwd:
        "resolve_forward solver timeout delta pointer maxResolutions ?after rl1 k1 = (rf, rl2, k2)"
        by (cases "resolve_forward solver timeout delta pointer maxResolutions ?after rl1 k1")
      from run ConstantExpr True ex bwd None fwd
      have "rf \<noteq> Some True" "rl = rl2" "k' = k2"
        by (auto simp: resolveConstantSegment_def split: option.splits)
      with None resolve_backward_extends [OF ext bwd, of delta']
        resolve_forward_extends [OF ext fwd, of delta'] ConstantExpr True ex'
      show ?thesis by (auto simp: resolveConstantSegment_def split: option.splits)
    qed
  qed
qed

lemma resolve_counting_checks:
  assumes run: "resolve_counting as solver pointer rl0 maxResolutions timeout delta = Inr (b, rl, n)"
  shows "\<forall>j. j < n \<and> timed_out timeout delta j \<longrightarrow> b"
proof (cases "isConstantExpr (getSegment pointer)")
  case True
  with run resolveConstantSegment_checks [of as solver pointer rl0 maxResolutions timeout delta 0 b rl n]
  show ?thesis by (simp add: resolve_counting_def)
next
  case False
  let ?zero = "\<lparr>getSegment = ConstantExpr 0, getOffset = getOffset pointer\<rparr>"
  show ?thesis
  proof (cases "mayBeTrue solver (IsZero (getSegment pointer))")
    case None
    with run False show ?thesis by (simp add: resolve_counting_def)
  next
    case (Some z)
    show ?thesis
    proof (cases z)
      case zero_no: False
      with run False Some
        resolve_segments_counting_checks [of as solver timeout delta pointer "segmentMap as" rl0 0 b rl n]
      show ?thesis by (simp add: resolve_counting_def)
    next
      case zero_yes: True
      from run False Some zero_yes obtain b1 rl1 k1 where rcs:
        "resolveConstantSegment as solver ?zero rl0 maxResolutions timeout delta 0 = Inr (b1, rl1, k1)"
        by (auto simp: resolve_counting_def split: sum.splits)
      note rc = resolveConstantSegment_checks [OF rcs]
      show ?thesis
      proof (cases b1)
        case True
        with run False Some zero_yes rcs have "b" "n = k1"
          by (simp_all add: resolve_counting_def)
        then show ?thesis by simp
      next
        case b_no: False
        with run False Some zero_yes rcs have segs:
          "resolve_segments_counting as solver timeout delta pointer (segmentMap as) rl1 k1 = Inr (b, rl, n)"
          by (simp add: resolve_counting_def)
        note sc = resolve_segments_counting_checks [OF segs]
        show ?thesis
        proof (intro allI impI)
          fix j
          assume j: "j < n \<and> timed_out timeout delta j"
          show "b"
          proof (cases "j < k1")
            case True
            with rc b_no j show ?thesis by auto
          next
            case False
            with sc j show ?thesis by auto
          qed
        qed
      qed
    qed
  qed
qed

lemma resolve_counting_cap:
  assumes cnt: "resolve_counting as solver pointer [] maxResolutions timeout delta = Inr (b, rl, n)"
  shows "(isConstantExpr (getSegment pointer) \<and> \<not> b \<longrightarrow> below_cap maxResolutions rl)
       \<and> (b \<and> never_fails solver \<and> (\<forall>j<n. \<not> timed_out timeout delta j)
          \<longrightarrow> at_cap maxResolutions rl)"
proof (cases "isConstantExpr (getSegment pointer)")
  case True
  with cnt have "resolveConstantSegment as solver pointer [] maxResolutions timeout delta 0
                   = Inr (b, rl, n)"
    by (simp add: resolve_counting_def)
  from resolveConstantSegment_cap [OF this] show ?thesis by simp
next
  case False
  let ?zero = "\<lparr>getSegment = ConstantExpr 0, getOffset = getOffset pointer\<rparr>"
  show ?thesis
  proof (cases "mayBeTrue solver (IsZero (getSegment pointer))")
    case None
    with never_fails_answers(2) [of solver "IsZero (getSegment pointer)"] False
    show ?thesis by auto
  next
    case (Some z)
    show ?thesis
    proof (cases z)
      case zero_no: False
      with cnt False Some have segs:
        "resolve_segments_counting as solver timeout delta pointer (segmentMap as) [] 0 = Inr (b, rl, n)"
        by (simp add: resolve_counting_def)
      have "\<not> b" if "never_fails solver" "\<forall>j<n. \<not> timed_out timeout delta j"
        using resolve_segments_counting_never_true [OF that(1) segs] that(2) by simp
      with False show ?thesis by blast
    next
      case zero_yes: True
      from cnt False Some zero_yes obtain b1 rl1 k1 where rcs:
        "resolveConstantSegment as solver ?zero [] maxResolutions timeout delta 0 = Inr (b1, rl1, k1)"
        by (auto simp: resolve_counting_def split: sum.splits)
      show ?thesis
      proof (cases b1)
        case True
        with cnt False Some zero_yes rcs have "b" "rl = rl1" "n = k1"
          by (simp_all add: resolve_counting_def)
        with resolveConstantSegment_cap [OF rcs] True False show ?thesis by simp
      next
        case b_no: False
        with cnt False Some zero_yes rcs have segs:
          "resolve_segments_counting as solver timeout delta pointer (segmentMap as) rl1 k1 = Inr (b, rl, n)"
          by (simp add: resolve_counting_def)
        have "\<not> b" if "never_fails solver" "\<forall>j<n. \<not> timed_out timeout delta j"
          using resolve_segments_counting_never_true [OF that(1) segs] that(2) by simp
        with False show ?thesis by blast
      qed
    qed
  qed
qed

lemma resolve_extends:
  assumes run: "resolve as solver pointer [] maxResolutions timeout delta = Inr (False, rl)"
    and ext: "extends solver' solver"
  shows "resolve as solver' pointer [] maxResolutions 0 delta' = Inr (False, rl)"
proof (cases "isConstantExpr (getSegment pointer)")
  case True
  with run obtain k' where rcs:
    "resolveConstantSegment as solver pointer [] maxResolutions timeout delta 0 = Inr (False, rl, k')"
    by (auto simp: resolve_def split: sum.splits)
  from resolveConstantSegment_extends [OF ext rcs, of delta'] True
  show ?thesis by (simp add: resolve_def)
next
  case False
  let ?zero = "\<lparr>getSegment = ConstantExpr 0, getOffset = getOffset pointer\<rparr>"
  from run False obtain z where z: "mayBeTrue solver (IsZero (getSegment pointer)) = Some z"
    by (cases "mayBeTrue solver (IsZero (getSegment pointer))") (auto simp: resolve_def)
  with ext have z': "mayBeTrue solver' (IsZero (getSegment pointer)) = Some z"
    by (simp add: extends_def)
  show ?thesis
  proof (cases z)
    case zero_no: False
    with run False z have segs:
      "resolve_segments as solver timeout delta pointer (segmentMap as) [] 0 = Inr (False, rl)"
      by (simp add: resolve_def)
    from resolve_segments_extends [OF ext segs, of delta'] z' zero_no False
    show ?thesis by (simp add: resolve_def)
  next
    case zero_yes: True
    from run False z zero_yes obtain b rl1 k1 where rcs:
      "resolveConstantSegment as solver ?zero [] maxResolutions timeout delta 0 = Inr (b, rl1, k1)"
      by (auto simp: resolve_def split: sum.splits)
    with run False z zero_yes have b: "\<not> b"
      by (cases b) (simp_all add: resolve_def)
    with run False z zero_yes rcs have segs:
      "resolve_segments as solver timeout delta pointer (segmentMap as) rl1 k1 = Inr (False, rl)"
      by (simp add: resolve_def)
    from rcs b have "resolveConstantSegment as solver ?zero [] maxResolutions timeout delta 0
        = Inr (False, rl1, k1)" by simp
    from resolveConstantSegment_extends [OF ext this, of delta']
      resolve_segments_extends [OF ext segs, of delta'] z' zero_yes False
    show ?thesis by (simp add: resolve_def)
  qed
qed

lemma resolve_flat_phase:
  assumes sym: "\<not> isConstantExpr (getSegment pointer)"
    and zero: "mayBeTrue solver (IsZero (getSegment pointer)) = Some True"
    and flat: "resolve as solver \<lparr>getSegment = ConstantExpr 0, getOffset = getOffset pointer\<rparr> []
                 maxResolutions timeout delta = Inr (b0, rl0)"
    and run: "resolve as solver pointer [] maxResolutions timeout delta = Inr (incomplete, rl)"
  shows "if b0 then incomplete \<and> rl = rl0
         else below_cap maxResolutions rl0 \<and> (\<exists>rest. rl = rl0 @ rest)"
proof -
  let ?zero = "\<lparr>getSegment = ConstantExpr 0, getOffset = getOffset pointer\<rparr>"
  from flat obtain k0 where rcs:
    "resolveConstantSegment as solver ?zero [] maxResolutions timeout delta 0 = Inr (b0, rl0, k0)"
    by (auto simp: resolve_def split: sum.splits)
  show ?thesis
  proof (cases b0)
    case True
    with run sym zero rcs show ?thesis by (simp add: resolve_def)
  next
    case False
    with run sym zero rcs have
      "resolve_segments as solver timeout delta pointer (segmentMap as) rl0 k0 = Inr (incomplete, rl)"
      by (simp add: resolve_def)
    from resolve_segments_prefix [OF this] resolveConstantSegment_cap [OF rcs] False
    show ?thesis by simp
  qed
qed

lemmas resolve_counting_eval = resolve_counting_def resolveConstantSegment_def
  resolveConstantAddress_def checkPointerInObject_def pm_upper_bound_def timed_out_def
  model_solver_def in_bounds_def getBaseExpr_def hack_def Let_def

text \<open>
  C2 (as amended): for resolve called with an empty list, \<open>n\<close> being the number of timeout
  checks the call has made.  If one of these checks found the timeout exceeded, resolve
  returns \<open>true\<close>.  When no solver call fails and none of the checks made found the
  timeout exceeded, it returns \<open>true\<close> only if the enumeration was cut at the cap (the
  list has exactly \<open>maxResolutions \<ge> 2\<close> entries).  A call on a pointer with a constant
  segment that returns \<open>false\<close> has a list below the cap.  For a symbolic segment that may
  be zero, the flat phase is the call on the pointer with segment 0: when that returns
  \<open>true\<close>, so does the whole call, with the same list; when it returns \<open>false\<close>, its list
  is below the cap and is extended by the loop over the segment map.  A call that returns
  \<open>false\<close> has met no failed solver call: it returns the same under every solver that
  extends the given one, with the timeout off.
\<close>

theorem resolve_true_iff_cut:
  assumes run: "resolve as solver pointer [] maxResolutions timeout delta = Inr (incomplete, rl)"
  shows "\<exists>n. resolve_counting as solver pointer [] maxResolutions timeout delta = Inr (incomplete, rl, n)
          \<and> ((\<exists>j<n. timeout \<noteq> 0 \<and> timeout < delta j) \<longrightarrow> incomplete)
          \<and> (incomplete \<and> never_fails solver \<and> (\<forall>j<n. timeout = 0 \<or> delta j \<le> timeout)
             \<longrightarrow> at_cap maxResolutions rl)
          \<and> (isConstantExpr (getSegment pointer) \<and> \<not> incomplete \<longrightarrow> below_cap maxResolutions rl)
          \<and> (\<forall>b0 rl0. \<not> isConstantExpr (getSegment pointer)
                \<and> mayBeTrue solver (IsZero (getSegment pointer)) = Some True
                \<and> resolve as solver \<lparr>getSegment = ConstantExpr 0, getOffset = getOffset pointer\<rparr> []
                     maxResolutions timeout delta = Inr (b0, rl0)
              \<longrightarrow> (if b0 then incomplete \<and> rl = rl0
                   else below_cap maxResolutions rl0 \<and> (\<exists>rest. rl = rl0 @ rest)))
          \<and> (\<not> incomplete \<and> extends solver' solver \<longrightarrow>
               resolve as solver' pointer [] maxResolutions 0 delta' = Inr (False, rl))"
proof -
  from run resolve_erase [of as solver pointer "[]" maxResolutions timeout delta]
  obtain n where cnt:
    "resolve_counting as solver pointer [] maxResolutions timeout delta = Inr (incomplete, rl, n)"
    by (auto simp: erase_count_def split: sum.splits)
  from resolve_counting_checks [OF cnt]
  have "(\<exists>j<n. timeout \<noteq> 0 \<and> timeout < delta j) \<longrightarrow> incomplete"
    by (auto simp: timed_out_def)
  moreover from resolve_counting_cap [OF cnt]
  have "incomplete \<and> never_fails solver \<and> (\<forall>j<n. timeout = 0 \<or> delta j \<le> timeout)
          \<longrightarrow> at_cap maxResolutions rl"
    and "isConstantExpr (getSegment pointer) \<and> \<not> incomplete \<longrightarrow> below_cap maxResolutions rl"
    by (auto simp: timed_out_def)
  moreover from resolve_flat_phase [OF _ _ _ run]
  have "\<forall>b0 rl0. \<not> isConstantExpr (getSegment pointer)
                \<and> mayBeTrue solver (IsZero (getSegment pointer)) = Some True
                \<and> resolve as solver \<lparr>getSegment = ConstantExpr 0, getOffset = getOffset pointer\<rparr> []
                     maxResolutions timeout delta = Inr (b0, rl0)
              \<longrightarrow> (if b0 then incomplete \<and> rl = rl0
                   else below_cap maxResolutions rl0 \<and> (\<exists>rest. rl = rl0 @ rest))"
    by blast
  moreover from resolve_extends [of as solver pointer maxResolutions timeout delta rl solver' delta'] run
  have "\<not> incomplete \<and> extends solver' solver \<longrightarrow>
               resolve as solver' pointer [] maxResolutions 0 delta' = Inr (False, rl)"
    by auto
  ultimately show ?thesis using cnt by blast
qed

theorem resolve_true_iff_cut_witness:
  "resolve as_ABC (model_solver three_models) flat_symbolic [] 2 0 (\<lambda>k. 0)
     = Inr (True, [(obj_A, 0), (obj_B, 1)])
   \<and> never_fails (model_solver three_models)
   \<and> at_cap 2 [(obj_A, 0), (obj_B, 1)]
   \<and> resolve_counting as_ABC (model_solver two_models) flat_symbolic [] 0 5 (\<lambda>k. 10 * k)
     = Inr (True, [(obj_A, 0)], 2)
   \<and> (5 :: nat) < 10 * 1
   \<and> resolve as_ABC (model_solver two_models) flat_symbolic [] 0 5 (\<lambda>k. 10 * k)
     = Inr (True, [(obj_A, 0)])
   \<and> resolve as_ABC (model_solver two_models) flat_symbolic [] 0 5 (\<lambda>k. k)
     = Inr (False, [(obj_A, 0), (obj_B, 1)])
   \<and> extends (model_solver two_models) (model_solver two_models)
   \<and> resolve as_ABC (model_solver two_models) flat_symbolic [] 0 0 (\<lambda>k. 0)
     = Inr (False, [(obj_A, 0), (obj_B, 1)])
   \<and> mayBeTrue (model_solver mixed_models) (IsZero (getSegment symbolic_pointer)) = Some True
   \<and> resolve as_mixed (model_solver mixed_models)
       \<lparr>getSegment = ConstantExpr 0, getOffset = getOffset symbolic_pointer\<rparr> [] 2 0 (\<lambda>k. 0)
     = Inr (True, [(obj_A, 0), (obj_B, 1)])
   \<and> resolve as_mixed (model_solver mixed_models) symbolic_pointer [] 2 0 (\<lambda>k. 0)
     = Inr (True, [(obj_A, 0), (obj_B, 1)])"
proof -
  have run: "resolve as_ABC (model_solver three_models) flat_symbolic [] 2 0 (\<lambda>k. 0)
     = Inr (True, [(obj_A, 0), (obj_B, 1)])"
    by (simp add: resolve_eval as_ABC_def three_models_def flat_symbolic_def
        obj_A_def obj_B_def obj_C_def)
  have total: "never_fails (model_solver three_models)"
    by (rule never_fails_model_solver) (simp add: three_models_def)
  from resolve_true_iff_cut [OF run] total
  have cap: "at_cap 2 [(obj_A, 0), (obj_B, 1)]" by auto
  have late: "resolve as_ABC (model_solver two_models) flat_symbolic [] 0 5 (\<lambda>k. 10 * k)
     = Inr (True, [(obj_A, 0)])"
    by (simp add: resolve_eval as_ABC_def two_models_def flat_symbolic_def
        obj_A_def obj_B_def obj_C_def)
  have count: "resolve_counting as_ABC (model_solver two_models) flat_symbolic [] 0 5 (\<lambda>k. 10 * k)
     = Inr (True, [(obj_A, 0)], 2)"
    by (simp add: resolve_counting_eval as_ABC_def two_models_def flat_symbolic_def
        obj_A_def obj_B_def obj_C_def)
  have run2: "resolve as_ABC (model_solver two_models) flat_symbolic [] 0 5 (\<lambda>k. k)
     = Inr (False, [(obj_A, 0), (obj_B, 1)])"
    by (simp add: resolve_eval as_ABC_def two_models_def flat_symbolic_def
        obj_A_def obj_B_def obj_C_def)
  have ext: "extends (model_solver two_models) (model_solver two_models)"
    by (simp add: extends_def)
  from resolve_true_iff_cut [OF run2, of "model_solver two_models" "\<lambda>k. 0"] ext
  have run3: "resolve as_ABC (model_solver two_models) flat_symbolic [] 0 0 (\<lambda>k. 0)
     = Inr (False, [(obj_A, 0), (obj_B, 1)])" by blast
  have zero: "mayBeTrue (model_solver mixed_models) (IsZero (getSegment symbolic_pointer)) = Some True"
    by (simp add: model_solver_def mixed_models_def symbolic_pointer_def)
  have flat: "resolve as_mixed (model_solver mixed_models)
       \<lparr>getSegment = ConstantExpr 0, getOffset = getOffset symbolic_pointer\<rparr> [] 2 0 (\<lambda>k. 0)
     = Inr (True, [(obj_A, 0), (obj_B, 1)])"
    by (simp add: resolve_eval as_mixed_def mixed_models_def symbolic_pointer_def
        obj_A_def obj_B_def seg_obj_def)
  obtain b rl where whole:
    "resolve as_mixed (model_solver mixed_models) symbolic_pointer [] 2 0 (\<lambda>k. 0) = Inr (b, rl)"
    by (simp add: resolve_eval as_mixed_def mixed_models_def symbolic_pointer_def
        obj_A_def obj_B_def seg_obj_def)
  have sym: "\<not> isConstantExpr (getSegment symbolic_pointer)" by (simp add: symbolic_pointer_def)
  from resolve_true_iff_cut [OF whole] sym zero flat
  have "b \<and> rl = [(obj_A, 0), (obj_B, 1)]" by (auto split: if_splits)
  with whole have cut: "resolve as_mixed (model_solver mixed_models) symbolic_pointer [] 2 0 (\<lambda>k. 0)
     = Inr (True, [(obj_A, 0), (obj_B, 1)])" by simp
  from run total cap count late run2 ext run3 zero flat cut show ?thesis by simp
qed

text \<open>
  The cap is not compared when the first entry is appended, nor in the loop over the
  segment map: with \<open>maxResolutions = 1\<close> and three objects that may contain the pointer,
  and with \<open>maxResolutions = 2\<close> and two segments the symbolic segment may be, resolve
  returns \<open>false\<close> with the cap reached.
\<close>

theorem resolve_cap_reached_returns_false:
  "never_fails (model_solver three_models)
   \<and> resolve as_ABC (model_solver three_models) flat_symbolic [] 1 0 (\<lambda>k. 0)
       = Inr (False, [(obj_A, 0), (obj_B, 1), (obj_C, 2)])
   \<and> never_fails (model_solver one_or_two)
   \<and> resolve as_two_segments (model_solver one_or_two) symbolic_segment [] 2 0 (\<lambda>k. 0)
       = Inr (False, [(seg_obj 1, 0), (seg_obj 2, 1)])
   \<and> at_cap 2 [(seg_obj 1, 0), (seg_obj 2, 1)]"
proof -
  have "never_fails (model_solver three_models)"
    by (rule never_fails_model_solver) (simp add: three_models_def)
  moreover have "resolve as_ABC (model_solver three_models) flat_symbolic [] 1 0 (\<lambda>k. 0)
       = Inr (False, [(obj_A, 0), (obj_B, 1), (obj_C, 2)])"
    by (simp add: resolve_eval as_ABC_def three_models_def flat_symbolic_def
        obj_A_def obj_B_def obj_C_def)
  moreover have "never_fails (model_solver one_or_two)"
    by (rule never_fails_model_solver) (simp add: one_or_two_def)
  moreover have "resolve as_two_segments (model_solver one_or_two) symbolic_segment [] 2 0 (\<lambda>k. 0)
       = Inr (False, [(seg_obj 1, 0), (seg_obj 2, 1)])"
    by (simp add: resolve_eval as_two_segments_def one_or_two_def symbolic_segment_def seg_obj_def)
  moreover have "at_cap 2 [(seg_obj 1, 0), (seg_obj 2, 1)]" by (simp add: at_cap_def)
  ultimately show ?thesis by simp
qed
section \<open>The loop over the segment map\<close>

lemma resolve_segments_appends_matching:
  assumes total: "never_fails solver"
    and clock: "\<forall>j. \<not> timed_out timeout delta j"
    and bound: "\<forall>res \<in> set segs. pm_lookup address (snd res) (objects as) \<noteq> None"
  shows "resolve_segments as solver timeout delta pointer segs rl k
           = Inr (False, rl @ object_entries as
                (filter (\<lambda>res. mayBeTrue solver (EqExpr (getSegment pointer) (ConstantExpr (fst res)))
                                = Some True) segs))"
  using bound
proof (induction segs arbitrary: rl k)
  case Nil
  then show ?case by (simp add: object_entries_def)
next
  case (Cons res rest)
  from never_fails_answers(2) [OF total] obtain b where
    may: "mayBeTrue solver (EqExpr (getSegment pointer) (ConstantExpr (fst res))) = Some b" by blast
  from Cons.prems obtain pair where look: "pm_lookup address (snd res) (objects as) = Some pair"
    by auto
  from Cons.prems have rest: "\<forall>res \<in> set rest. pm_lookup address (snd res) (objects as) \<noteq> None"
    by simp
  from clock have now: "\<not> timed_out timeout delta k" by simp
  show ?case
  proof (cases b)
    case True
    with may look now Cons.IH [OF rest, of "rl @ [pair]" "Suc k"] show ?thesis
      by (simp add: object_entries_def)
  next
    case False
    with may now Cons.IH [OF rest, of rl "Suc k"] show ?thesis
      by (simp add: object_entries_def)
  qed
qed

lemma segment_entry_bound:
  assumes wf: "wf_maps as" and sync: "segment_sync as" and mem: "res \<in> set (segmentMap as)"
  shows "\<exists>os. pm_lookup address (snd res) (objects as) = Some (snd res, os)"
proof -
  from wf have "pm_sorted id (segmentMap as)" by (simp add: wf_maps_def)
  from pm_lookup_sorted_iff [OF this, of "fst res" res] mem
  have "pm_lookup id (fst res) (segmentMap as) = Some res" by simp
  then have "segmentMap_at as (fst res) = Some (snd res)" by (simp add: segmentMap_at_def)
  with sync have "is_bound as (snd res)" by (simp add: segment_sync_def)
  then show ?thesis
    by (cases "pm_lookup address (snd res) (objects as)") (auto simp: is_bound_def)
qed

lemma object_entries_of_bound:
  assumes "\<forall>res \<in> set segs. \<exists>os. pm_lookup address (snd res) (objects as) = Some (snd res, os)"
  shows "map fst (object_entries as segs) = map snd segs"
  using assms by (induction segs) (auto simp: object_entries_def)

lemma resolve_symbolic_segment_entries:
  assumes sym: "\<not> isConstantExpr (getSegment pointer)"
    and total: "never_fails solver"
    and wf: "wf_maps as" and sync: "segment_sync as"
    and clock: "\<forall>j. timeout = 0 \<or> delta j \<le> timeout"
  shows "map fst (object_entries as (matching_segments as solver pointer))
           = map snd (matching_segments as solver pointer)"
    and "mayBeTrue solver (IsZero (getSegment pointer)) = Some False \<Longrightarrow>
           resolve as solver pointer [] maxResolutions timeout delta
             = Inr (False, object_entries as (matching_segments as solver pointer))"
    and "mayBeTrue solver (IsZero (getSegment pointer)) = Some True \<Longrightarrow>
         resolve as solver \<lparr>getSegment = ConstantExpr 0, getOffset = getOffset pointer\<rparr> []
           maxResolutions timeout delta = Inr (b0, rl0) \<Longrightarrow>
           (b0 \<longleftrightarrow> at_cap maxResolutions rl0)
           \<and> (\<not> b0 \<longrightarrow> below_cap maxResolutions rl0)
           \<and> resolve as solver pointer [] maxResolutions timeout delta
               = (if b0 then Inr (True, rl0)
                  else Inr (False, rl0 @ object_entries as (matching_segments as solver pointer)))"
proof -
  let ?zero = "\<lparr>getSegment = ConstantExpr 0, getOffset = getOffset pointer\<rparr>"
  from clock have no: "\<forall>j. \<not> timed_out timeout delta j"
    by (auto simp: timed_out_def not_less)
  have bound: "\<forall>res \<in> set (segmentMap as).
                 \<exists>os. pm_lookup address (snd res) (objects as) = Some (snd res, os)"
    using segment_entry_bound [OF wf sync] by blast
  then have "\<forall>res \<in> set (matching_segments as solver pointer).
                 \<exists>os. pm_lookup address (snd res) (objects as) = Some (snd res, os)"
    by (simp add: matching_segments_def)
  then show "map fst (object_entries as (matching_segments as solver pointer))
           = map snd (matching_segments as solver pointer)"
    by (rule object_entries_of_bound)
  from bound have some: "\<forall>res \<in> set (segmentMap as). pm_lookup address (snd res) (objects as) \<noteq> None"
    by fastforce
  note loop = resolve_segments_appends_matching [OF total no some, of pointer, folded matching_segments_def]
  show "resolve as solver pointer [] maxResolutions timeout delta
             = Inr (False, object_entries as (matching_segments as solver pointer))"
    if "mayBeTrue solver (IsZero (getSegment pointer)) = Some False"
    using that sym loop [of "[]" 0] by (simp add: resolve_def)
  show "(b0 \<longleftrightarrow> at_cap maxResolutions rl0)
           \<and> (\<not> b0 \<longrightarrow> below_cap maxResolutions rl0)
           \<and> resolve as solver pointer [] maxResolutions timeout delta
               = (if b0 then Inr (True, rl0)
                  else Inr (False, rl0 @ object_entries as (matching_segments as solver pointer)))"
    if zero: "mayBeTrue solver (IsZero (getSegment pointer)) = Some True"
      and flat: "resolve as solver ?zero [] maxResolutions timeout delta = Inr (b0, rl0)"
  proof -
    from flat obtain k0 where rcs:
      "resolveConstantSegment as solver ?zero [] maxResolutions timeout delta 0 = Inr (b0, rl0, k0)"
      by (auto simp: resolve_def split: sum.splits)
    from resolveConstantSegment_cap [OF rcs] total no
    have cap: "\<not> b0 \<longrightarrow> below_cap maxResolutions rl0" "b0 \<longrightarrow> at_cap maxResolutions rl0"
      by simp_all
    then have "b0 \<longleftrightarrow> at_cap maxResolutions rl0"
      by (auto simp: below_cap_def at_cap_def)
    moreover have "resolve as solver pointer [] maxResolutions timeout delta
               = (if b0 then Inr (True, rl0)
                  else Inr (False, rl0 @ object_entries as (matching_segments as solver pointer)))"
      using sym zero rcs loop [of rl0 k0] by (cases b0) (simp_all add: resolve_def)
    ultimately show ?thesis using cap by simp
  qed
qed

lemma wf_maps_as_mixed: "wf_maps as_mixed"
  by (simp add: wf_maps_def pm_sorted_def as_mixed_def seg_obj_def obj_A_def obj_B_def)

lemma segment_sync_as_mixed: "segment_sync as_mixed"
  by (auto simp: segment_sync_def segmentMap_at_def is_bound_def as_mixed_def seg_obj_def
      obj_A_def obj_B_def split: if_splits)

text \<open>
  C10: for a pointer with a symbolic segment, in a well-formed address space whose two
  maps are synchronised, when no solver call fails and no timeout is exceeded.  The loop
  over the segment map appends one entry for every segment \<open>s\<close> with
  \<open>mayBeTrue(pointer.segment == s)\<close>, the entry of that segment's object, whatever
  \<open>maxResolutions\<close> is, and resolve returns \<open>false\<close>.  When the segment may be zero, the
  flat phase (the call on the pointer with segment 0) comes first: it returns \<open>true\<close>
  exactly when its list is at the cap, and then the whole call returns \<open>true\<close> with that
  list; otherwise its list is below the cap and the entries of the matching segments are
  appended to it.  Hence for every \<open>maxResolutions \<noteq> 0\<close> there is a call that returns
  \<open>false\<close> with more than \<open>maxResolutions\<close> entries.  With two flat objects, the segments
  1 and 3 matching and \<open>maxResolutions = 2\<close>, the flat phase is cut at the cap.
\<close>

theorem resolve_symbolic_segment_ignores_cap:
  "(\<not> isConstantExpr (getSegment pointer) \<and> never_fails solver \<and> wf_maps as \<and> segment_sync as
      \<and> (\<forall>j. timeout = 0 \<or> delta j \<le> timeout) \<longrightarrow>
        map fst (object_entries as (matching_segments as solver pointer))
          = map snd (matching_segments as solver pointer)
        \<and> (mayBeTrue solver (IsZero (getSegment pointer)) = Some False \<longrightarrow>
             resolve as solver pointer [] maxResolutions timeout delta
               = Inr (False, object_entries as (matching_segments as solver pointer)))
        \<and> (\<forall>b0 rl0.
             mayBeTrue solver (IsZero (getSegment pointer)) = Some True
             \<and> resolve as solver \<lparr>getSegment = ConstantExpr 0, getOffset = getOffset pointer\<rparr> []
                  maxResolutions timeout delta = Inr (b0, rl0) \<longrightarrow>
               (b0 \<longleftrightarrow> at_cap maxResolutions rl0)
               \<and> (\<not> b0 \<longrightarrow> below_cap maxResolutions rl0)
               \<and> resolve as solver pointer [] maxResolutions timeout delta
                   = (if b0 then Inr (True, rl0)
                      else Inr (False,
                             rl0 @ object_entries as (matching_segments as solver pointer)))))
   \<and> (maxResolutions \<noteq> 0 \<longrightarrow>
        (\<exists>as solver pointer rl.
           wf_maps as \<and> segment_sync as \<and> never_fails solver \<and> (\<exists>M. answers_for solver M)
           \<and> \<not> isConstantExpr (getSegment pointer)
           \<and> resolve as solver pointer [] maxResolutions 0 delta = Inr (False, rl)
           \<and> unat maxResolutions < length rl))
   \<and> resolve as_mixed (model_solver mixed_models) symbolic_pointer [] 2 0 (\<lambda>k. 0)
       = Inr (True, [(obj_A, 0), (obj_B, 1)])"
proof -
  have "resolve as_mixed (model_solver mixed_models) symbolic_pointer [] 2 0 (\<lambda>k. 0)
       = Inr (True, [(obj_A, 0), (obj_B, 1)])"
    by (simp add: resolve_eval as_mixed_def mixed_models_def symbolic_pointer_def
        obj_A_def obj_B_def seg_obj_def)
  with resolve_symbolic_segment_entries [of pointer solver as timeout delta]
    exceeds_cap_exists [of maxResolutions delta]
  show ?thesis by blast
qed

theorem resolve_symbolic_segment_ignores_cap_witness:
  "\<not> isConstantExpr (getSegment symbolic_pointer)
   \<and> never_fails (model_solver mixed_models) \<and> wf_maps as_mixed \<and> segment_sync as_mixed
   \<and> mayBeTrue (model_solver mixed_models) (IsZero (getSegment symbolic_pointer)) = Some True
   \<and> matching_segments as_mixed (model_solver mixed_models) symbolic_pointer
       = [(1, seg_obj 1), (3, seg_obj 3)]
   \<and> resolve as_mixed (model_solver mixed_models)
       \<lparr>getSegment = ConstantExpr 0, getOffset = getOffset symbolic_pointer\<rparr> [] 3 0 (\<lambda>k. 0)
     = Inr (False, [(obj_A, 0), (obj_B, 1)])
   \<and> resolve as_mixed (model_solver mixed_models) symbolic_pointer [] 3 0 (\<lambda>k. 0)
     = Inr (False, [(obj_A, 0), (obj_B, 1), (seg_obj 1, 2), (seg_obj 3, 4)])
   \<and> unat (3 :: u32) < length [(obj_A, 0 :: nat), (obj_B, 1), (seg_obj 1, 2), (seg_obj 3, 4)]
   \<and> resolve as_mixed (model_solver mixed_models)
       \<lparr>getSegment = ConstantExpr 0, getOffset = getOffset symbolic_pointer\<rparr> [] 2 0 (\<lambda>k. 0)
     = Inr (True, [(obj_A, 0), (obj_B, 1)])
   \<and> at_cap 2 [(obj_A, 0 :: nat), (obj_B, 1)]
   \<and> resolve as_mixed (model_solver mixed_models) symbolic_pointer [] 2 0 (\<lambda>k. 0)
     = Inr (True, [(obj_A, 0), (obj_B, 1)])"
proof -
  have sym: "\<not> isConstantExpr (getSegment symbolic_pointer)" by (simp add: symbolic_pointer_def)
  have total: "never_fails (model_solver mixed_models)"
    by (rule never_fails_model_solver) (simp add: mixed_models_def)
  have zero: "mayBeTrue (model_solver mixed_models) (IsZero (getSegment symbolic_pointer)) = Some True"
    by (simp add: model_solver_def mixed_models_def symbolic_pointer_def)
  have matching: "matching_segments as_mixed (model_solver mixed_models) symbolic_pointer
       = [(1, seg_obj 1), (3, seg_obj 3)]"
    by (simp add: matching_segments_def model_solver_def mixed_models_def symbolic_pointer_def
        as_mixed_def)
  have entries: "object_entries as_mixed [(1, seg_obj 1), (3, seg_obj 3)]
       = [(seg_obj 1, 2), (seg_obj 3, 4)]"
    by (simp add: object_entries_def as_mixed_def seg_obj_def obj_A_def obj_B_def)
  have flat3: "resolve as_mixed (model_solver mixed_models)
       \<lparr>getSegment = ConstantExpr 0, getOffset = getOffset symbolic_pointer\<rparr> [] 3 0 (\<lambda>k. 0)
     = Inr (False, [(obj_A, 0), (obj_B, 1)])"
    by (simp add: resolve_eval as_mixed_def mixed_models_def symbolic_pointer_def
        obj_A_def obj_B_def seg_obj_def)
  have flat2: "resolve as_mixed (model_solver mixed_models)
       \<lparr>getSegment = ConstantExpr 0, getOffset = getOffset symbolic_pointer\<rparr> [] 2 0 (\<lambda>k. 0)
     = Inr (True, [(obj_A, 0), (obj_B, 1)])"
    by (simp add: resolve_eval as_mixed_def mixed_models_def symbolic_pointer_def
        obj_A_def obj_B_def seg_obj_def)
  have clock: "\<forall>j. (0 :: nat) = 0 \<or> (\<lambda>k. 0 :: nat) j \<le> 0" by simp
  from resolve_symbolic_segment_ignores_cap [of symbolic_pointer "model_solver mixed_models"
      as_mixed 0 "\<lambda>k. 0" 3] sym total wf_maps_as_mixed segment_sync_as_mixed zero flat3
  have run3: "resolve as_mixed (model_solver mixed_models) symbolic_pointer [] 3 0 (\<lambda>k. 0)
     = Inr (False, [(obj_A, 0), (obj_B, 1)] @ object_entries as_mixed
          (matching_segments as_mixed (model_solver mixed_models) symbolic_pointer))"
    by auto
  from resolve_symbolic_segment_ignores_cap [of symbolic_pointer "model_solver mixed_models"
      as_mixed 0 "\<lambda>k. 0" 2] sym total wf_maps_as_mixed segment_sync_as_mixed zero flat2
  have run2: "at_cap 2 [(obj_A, 0 :: nat), (obj_B, 1)]
     \<and> resolve as_mixed (model_solver mixed_models) symbolic_pointer [] 2 0 (\<lambda>k. 0)
     = Inr (True, [(obj_A, 0), (obj_B, 1)])"
    by auto
  from sym total wf_maps_as_mixed segment_sync_as_mixed zero matching flat3 flat2 run2
    run3 [unfolded matching entries]
  show ?thesis by simp
qed

end
